theory Spec2Isabelle
  imports Main
begin

section \<open>Shared definitions (common.h)\<close>

abbreviation MAX_CLIENTS :: nat where "MAX_CLIENTS \<equiv> 10"
abbreviation MAX_USERNAME :: nat where "MAX_USERNAME \<equiv> 20"
abbreviation MAX_MESSAGE :: nat where "MAX_MESSAGE \<equiv> 256"
abbreviation WHITEBOARD_SIZE :: nat where "WHITEBOARD_SIZE \<equiv> 10"

text \<open>The width of one whiteboard row and of the two formatting buffers of
  \<^verbatim>\<open>format_whiteboard_msg\<close>: \<^verbatim>\<open>MAX_USERNAME + MAX_MESSAGE + 50\<close>.\<close>

abbreviation LINE_SIZE :: nat where "LINE_SIZE \<equiv> MAX_USERNAME + MAX_MESSAGE + 50"

datatype MessageType = MSG_LOGIN | MSG_LOGOUT | MSG_BROADCAST | MSG_PRIVATE | MSG_ERROR

text \<open>A \<^verbatim>\<open>char\<close> array is the list of its bytes; its length is the declared size.\<close>

type_synonym buf = "char list"

record Message =
  msg_type :: MessageType
  sender :: buf
  recipient :: buf
  content :: buf

definition ANSI_RESET :: string where "ANSI_RESET = [CHR 0x1B, CHR ''['', CHR ''0'', CHR ''m'']"
definition ANSI_RED :: string where "ANSI_RED = [CHR 0x1B, CHR ''['', CHR ''3'', CHR ''1'', CHR ''m'']"
definition ANSI_GREEN :: string where "ANSI_GREEN = [CHR 0x1B, CHR ''['', CHR ''3'', CHR ''2'', CHR ''m'']"
definition ANSI_YELLOW :: string where "ANSI_YELLOW = [CHR 0x1B, CHR ''['', CHR ''3'', CHR ''3'', CHR ''m'']"
definition ANSI_BLUE :: string where "ANSI_BLUE = [CHR 0x1B, CHR ''['', CHR ''3'', CHR ''4'', CHR ''m'']"
definition ANSI_MAGENTA :: string where "ANSI_MAGENTA = [CHR 0x1B, CHR ''['', CHR ''3'', CHR ''5'', CHR ''m'']"

section \<open>C strings in fixed buffers\<close>

text \<open>What C leaves undefined is a fault in the model: reading a string that has no
  terminator inside its array, writing a string longer than the destination array, and
  indexing an array outside its bounds.\<close>

datatype fault = Unterminated_String | Buffer_Overflow | Out_Of_Bounds

definition then_res :: "fault + 'a \<Rightarrow> ('a \<Rightarrow> fault + 'b) \<Rightarrow> fault + 'b" where
  "then_res m f = (case m of Inl e \<Rightarrow> Inl e | Inr x \<Rightarrow> f x)"

definition NUL :: char where "NUL = CHR 0x00"

definition terminated :: "buf \<Rightarrow> bool" where
  "terminated b = (NUL \<in> set b)"

text \<open>The string a \<^verbatim>\<open>%s\<close> conversion, \<^verbatim>\<open>strcmp\<close> or \<^verbatim>\<open>strcpy\<close> reads from an array:
  the bytes before the first NUL.\<close>

definition c_str :: "buf \<Rightarrow> fault + string" where
  "c_str b = (if terminated b then Inr (takeWhile (\<lambda>c. c \<noteq> NUL) b) else Inl Unterminated_String)"

text \<open>\<^verbatim>\<open>strcmp(a, b) == 0\<close>.\<close>

definition strcmp_eq :: "buf \<Rightarrow> buf \<Rightarrow> fault + bool" where
  "strcmp_eq a b = then_res (c_str a) (\<lambda>x. then_res (c_str b) (\<lambda>y. Inr (x = y)))"

text \<open>\<^verbatim>\<open>strcpy(dst, s)\<close> and \<^verbatim>\<open>sprintf(dst, ...)\<close> producing the text \<open>s\<close>: the text and
  its terminator overwrite the head of \<open>dst\<close>, the bytes behind them keep their old value.\<close>

definition strcpy :: "buf \<Rightarrow> string \<Rightarrow> fault + buf" where
  "strcpy dst s =
     (if length s < length dst then Inr (s @ NUL # drop (Suc (length s)) dst)
      else Inl Buffer_Overflow)"

text \<open>\<^verbatim>\<open>strncpy(dst, src, n)\<close>: the bytes of \<open>src\<close> up to its first NUL, at most \<open>n\<close>
  of them, padded with NUL to \<open>n\<close> bytes; no terminator is added when the first \<open>n\<close> bytes
  of \<open>src\<close> hold none.\<close>

definition strncpy :: "buf \<Rightarrow> buf \<Rightarrow> nat \<Rightarrow> fault + buf" where
  "strncpy dst src n =
     (let body = takeWhile (\<lambda>c. c \<noteq> NUL) (take n src) in
      if length dst < n then Inl Buffer_Overflow
      else if length body < n \<and> length body = length src then Inl Unterminated_String
      else Inr (body @ replicate (n - length body) NUL @ drop n dst))"

section \<open>Server state (server.c)\<close>

record Client =
  socket :: int
  username :: buf

text \<open>Each row of the whiteboard is an array of \<open>LINE_SIZE\<close> bytes. Its last byte is
  zero at start and never written (\<^verbatim>\<open>strncpy\<close> is given \<open>LINE_SIZE - 1\<close>), so a row
  always holds a terminated string; the model keeps that string.\<close>

record Whiteboard =
  messages :: "string list"
  current_index :: nat

text \<open>The globals of the server, and what it has done to the outside: the frames passed
  to \<^verbatim>\<open>send\<close> with their socket, the sockets passed to \<^verbatim>\<open>close\<close>, and what the last
  redraw of the console shows (the active count and the rows printed).\<close>

record server =
  clients :: "Client list"
  client_count :: nat
  whiteboard :: Whiteboard
  sent :: "(int \<times> Message) list"
  closed :: "int list"
  screen :: "nat \<times> string list"

datatype ServerMsgType =
  MSG_TYPE_BROADCAST | MSG_TYPE_PRIVATE | MSG_TYPE_LOGIN | MSG_TYPE_LOGOUT | MSG_TYPE_ERROR

text \<open>The static initialisers: every array zeroed, both counters 0.\<close>

definition zero_client :: Client where
  "zero_client = \<lparr>socket = 0, username = replicate MAX_USERNAME NUL\<rparr>"

definition server0 :: server where
  "server0 = \<lparr>clients = replicate MAX_CLIENTS zero_client, client_count = 0,
     whiteboard = \<lparr>messages = replicate WHITEBOARD_SIZE [], current_index = 0\<rparr>,
     sent = [], closed = [], screen = (0, [])\<rparr>"

text \<open>The sessions of the registry: the first \<open>client_count\<close> entries of the array.\<close>

definition active :: "server \<Rightarrow> Client list" where
  "active s = take (client_count s) (clients s)"

subsection \<open>Whiteboard\<close>

fun get_msg_properties :: "ServerMsgType \<Rightarrow> string \<times> string" where
  "get_msg_properties MSG_TYPE_BROADCAST = (ANSI_BLUE, ''BROADCAST'')"
| "get_msg_properties MSG_TYPE_PRIVATE = (ANSI_MAGENTA, ''PRIVATE'')"
| "get_msg_properties MSG_TYPE_LOGIN = (ANSI_GREEN, ''LOGIN'')"
| "get_msg_properties MSG_TYPE_LOGOUT = (ANSI_YELLOW, ''LOGOUT'')"
| "get_msg_properties MSG_TYPE_ERROR = (ANSI_RED, ''ERROR'')"

text \<open>What \<^verbatim>\<open>strncpy(row, message, LINE_SIZE - 1)\<close> leaves in a row.\<close>

definition stored_line :: "string \<Rightarrow> string" where
  "stored_line message = take (LINE_SIZE - 1) (takeWhile (\<lambda>c. c \<noteq> NUL) message)"

text \<open>The display loop of \<^verbatim>\<open>update_whiteboard\<close>: rows \<open>current_index + i\<close> for
  \<open>i\<close> from the given start up to \<open>WHITEBOARD_SIZE\<close>, the rows whose first byte is zero
  skipped.\<close>

function display_loop :: "Whiteboard \<Rightarrow> nat \<Rightarrow> string list" where
  "display_loop wb i =
     (if i < WHITEBOARD_SIZE then
        (let idx = (current_index wb + i) mod WHITEBOARD_SIZE in
         if messages wb ! idx \<noteq> [] then messages wb ! idx # display_loop wb (i + 1)
         else display_loop wb (i + 1))
      else [])"
  by pat_completeness auto
termination
  by (relation "measure (\<lambda>(wb, i). WHITEBOARD_SIZE - i)") auto

declare display_loop.simps [simp del]

definition update_whiteboard :: "string \<Rightarrow> server \<Rightarrow> server" where
  "update_whiteboard message s =
     (let wb = whiteboard s;
          wb' = \<lparr>messages = (messages wb)[current_index wb := stored_line message],
                 current_index = (current_index wb + 1) mod WHITEBOARD_SIZE\<rparr>
      in s\<lparr>whiteboard := wb', screen := (client_count s, display_loop wb' 0)\<rparr>)"

text \<open>\<^verbatim>\<open>format_whiteboard_msg\<close>, given the text its format and arguments expand to:
  \<^verbatim>\<open>vsnprintf\<close> and \<^verbatim>\<open>snprintf\<close> both cut at \<open>LINE_SIZE - 1\<close> characters.\<close>

definition format_whiteboard_msg :: "ServerMsgType \<Rightarrow> string \<Rightarrow> server \<Rightarrow> server" where
  "format_whiteboard_msg t text s =
     (let message = take (LINE_SIZE - 1) text;
          (color, type_str) = get_msg_properties t;
          full_message = take (LINE_SIZE - 1) (color @ type_str @ ANSI_RESET @ '' - '' @ message)
      in update_whiteboard full_message s)"

text \<open>The rows in the order the display loop visits them, empty ones included.\<close>

definition rows_in_order :: "Whiteboard \<Rightarrow> string list" where
  "rows_in_order wb =
     map (\<lambda>i. messages wb ! ((current_index wb + i) mod WHITEBOARD_SIZE)) [0..<WHITEBOARD_SIZE]"


subsection \<open>Session registry\<close>

text \<open>\<^verbatim>\<open>send(sock, msg, sizeof(Message), 0)\<close> and \<^verbatim>\<open>close(sock)\<close>; the result of
  \<^verbatim>\<open>send\<close> is never looked at.\<close>

definition send_frame :: "int \<Rightarrow> Message \<Rightarrow> server \<Rightarrow> server" where
  "send_frame sock msg s = s\<lparr>sent := sent s @ [(sock, msg)]\<rparr>"

definition close_socket :: "int \<Rightarrow> server \<Rightarrow> server" where
  "close_socket sock s = s\<lparr>closed := closed s @ [sock]\<rparr>"

text \<open>The loop of \<^verbatim>\<open>find_client\<close> from index \<open>i\<close>: the socket of the first entry
  below \<open>client_count\<close> whose name compares equal, \<open>None\<close> for \<^verbatim>\<open>found = 0\<close>.\<close>

function find_client_loop :: "server \<Rightarrow> buf \<Rightarrow> nat \<Rightarrow> fault + int option" where
  "find_client_loop s uname i =
     (if i < client_count s then
        (if i < length (clients s) then
           then_res (strcmp_eq (username (clients s ! i)) uname)
             (\<lambda>same. if same then Inr (Some (socket (clients s ! i)))
                      else find_client_loop s uname (i + 1))
         else Inl Out_Of_Bounds)
      else Inr None)"
  by pat_completeness auto
termination
  by (relation "measure (\<lambda>(s, uname, i). client_count s - i)") auto

declare find_client_loop.simps [simp del]

definition find_client :: "server \<Rightarrow> buf \<Rightarrow> fault + int option" where
  "find_client s uname = find_client_loop s uname 0"

subsection \<open>Message router\<close>

text \<open>The send loop of \<^verbatim>\<open>broadcast_message\<close> from index \<open>i\<close>.\<close>

function broadcast_loop :: "Message \<Rightarrow> int \<Rightarrow> nat \<Rightarrow> server \<Rightarrow> fault + server" where
  "broadcast_loop msg sender_socket i s =
     (if i < client_count s then
        (if i < length (clients s) then
           broadcast_loop msg sender_socket (i + 1)
             (if socket (clients s ! i) \<noteq> sender_socket
              then send_frame (socket (clients s ! i)) msg s else s)
         else Inl Out_Of_Bounds)
      else Inr s)"
  by pat_completeness auto
termination
  by (relation "measure (\<lambda>(msg, sender_socket, i, s). client_count s - i)")
     (auto simp: send_frame_def)

declare broadcast_loop.simps [simp del]

definition broadcast_message :: "Message \<Rightarrow> int \<Rightarrow> server \<Rightarrow> fault + server" where
  "broadcast_message msg sender_socket s =
     then_res (broadcast_loop msg sender_socket 0 s) (\<lambda>s1.
     then_res (c_str (sender msg)) (\<lambda>from.
     then_res (c_str (content msg)) (\<lambda>body.
       Inr (format_whiteboard_msg MSG_TYPE_BROADCAST (from @ '': '' @ body) s1))))"

text \<open>\<^verbatim>\<open>send_private_message\<close>. Its \<^verbatim>\<open>error_msg\<close> is an automatic variable without
  initialiser: \<open>stack\<close> is what the memory it occupies holds on entry, and the bytes the
  function does not write are sent as they are.\<close>

definition send_private_message :: "Message \<Rightarrow> Message \<Rightarrow> server \<Rightarrow> fault + server" where
  "send_private_message stack msg s =
     then_res (find_client s (recipient msg)) (\<lambda>found.
       case found of
         None \<Rightarrow>
           then_res (c_str (recipient msg)) (\<lambda>to.
           then_res (strcpy (content stack) (''User '' @ [CHR 0x27] @ to @ [CHR 0x27] @
                       '' does not exist or is offline'')) (\<lambda>error_content.
           then_res (strcpy (sender stack) ''Server'') (\<lambda>error_sender.
           let error_msg = stack\<lparr>msg_type := MSG_ERROR, content := error_content,
                                   sender := error_sender\<rparr> in
           then_res (find_client s (sender msg)) (\<lambda>found_sender.
           let s1 = (case found_sender of
                       Some sender_socket \<Rightarrow> send_frame sender_socket error_msg s
                     | None \<Rightarrow> s) in
           then_res (c_str (sender msg)) (\<lambda>from.
             Inr (format_whiteboard_msg MSG_TYPE_ERROR
                    (from @ '' tried to message non-existent user '' @ to) s1))))))
       | Some recipient_socket \<Rightarrow>
           (let s1 = send_frame recipient_socket msg s in
            then_res (c_str (sender msg)) (\<lambda>from.
            then_res (c_str (recipient msg)) (\<lambda>to.
            then_res (c_str (content msg)) (\<lambda>body.
              Inr (format_whiteboard_msg MSG_TYPE_PRIVATE
                     (from @ '' to '' @ to @ '': '' @ body) s1))))))"

subsection \<open>Connection handler\<close>

text \<open>A \<^verbatim>\<open>Message\<close> declared with \<^verbatim>\<open>{.type = t}\<close>: every other byte is zero.\<close>

definition zero_message :: "MessageType \<Rightarrow> Message" where
  "zero_message t = \<lparr>msg_type = t, sender = replicate MAX_USERNAME NUL,
     recipient = replicate MAX_USERNAME NUL, content = replicate MAX_MESSAGE NUL\<rparr>"

text \<open>\<^verbatim>\<open>recv(client_socket, username, MAX_USERNAME, 0)\<close> into the zeroed local array:
  \<open>data\<close> is what has arrived on the connection, none of it when the peer has closed
  (\<^verbatim>\<open>recv\<close> gives 0 or less, and the handler closes the socket and returns).\<close>

definition recv_username :: "char list \<Rightarrow> buf option" where
  "recv_username data =
     (if data = [] then None
      else Some (take MAX_USERNAME data @ replicate (MAX_USERNAME - length data) NUL))"

text \<open>The duplicate check of \<^verbatim>\<open>handle_client\<close>, one locked section inside
  \<^verbatim>\<open>find_client\<close>: \<open>True\<close> when the handler goes on to register, \<open>False\<close> when it
  has sent the error, closed the socket and returned.\<close>

definition check_username :: "int \<Rightarrow> buf \<Rightarrow> server \<Rightarrow> fault + bool \<times> server" where
  "check_username client_socket uname s =
     then_res (find_client s uname) (\<lambda>found.
       case found of
         Some _ \<Rightarrow>
           then_res (c_str uname) (\<lambda>name.
           then_res (strcpy (content (zero_message MSG_ERROR))
                       (''Username '' @ [CHR 0x27] @ name @ [CHR 0x27] @ '' is already in use''))
             (\<lambda>error_content.
           then_res (strcpy (sender (zero_message MSG_ERROR)) ''Server'') (\<lambda>error_sender.
           let error_msg = (zero_message MSG_ERROR)\<lparr>content := error_content,
                                                      sender := error_sender\<rparr> in
             Inr (False, close_socket client_socket (send_frame client_socket error_msg s)))))
       | None \<Rightarrow> Inr (True, s))"

text \<open>The registration proper, a second locked section: the entry at index
  \<open>client_count\<close> is written with no test of \<open>client_count\<close> against the array size.\<close>

definition register_client :: "int \<Rightarrow> buf \<Rightarrow> server \<Rightarrow> fault + server" where
  "register_client client_socket uname s =
     (if client_count s < length (clients s) then
        then_res (strncpy (username (clients s ! client_count s)) uname MAX_USERNAME) (\<lambda>field.
          Inr (s\<lparr>clients := (clients s)[client_count s :=
                               \<lparr>socket = client_socket, username = field\<rparr>],
                  client_count := client_count s + 1\<rparr>))
      else Inl Out_Of_Bounds)"

text \<open>The rest of the admission: the login line on the whiteboard and the notice to the
  others.\<close>

definition announce_login :: "int \<Rightarrow> buf \<Rightarrow> server \<Rightarrow> fault + server" where
  "announce_login client_socket uname s =
     then_res (c_str uname) (\<lambda>name.
     let s1 = format_whiteboard_msg MSG_TYPE_LOGIN (name @ '' has joined the chat'') s in
     then_res (strcpy (sender (zero_message MSG_LOGIN)) name) (\<lambda>login_sender.
     then_res (strcpy (content (zero_message MSG_LOGIN)) ''has joined the chat'') (\<lambda>login_content.
       broadcast_message ((zero_message MSG_LOGIN)\<lparr>sender := login_sender,
                            content := login_content\<rparr>) client_socket s1)))"

definition admit_client :: "int \<Rightarrow> buf \<Rightarrow> server \<Rightarrow> fault + server" where
  "admit_client client_socket uname s =
     then_res (register_client client_socket uname s) (announce_login client_socket uname)"

text \<open>The removal loops of the disconnect branch: the index of the first entry with
  the handler's socket, and the shift of the entries behind it.\<close>

function find_socket_loop :: "server \<Rightarrow> int \<Rightarrow> nat \<Rightarrow> fault + nat option" where
  "find_socket_loop s client_socket i =
     (if i < client_count s then
        (if i < length (clients s) then
           (if socket (clients s ! i) = client_socket then Inr (Some i)
            else find_socket_loop s client_socket (i + 1))
         else Inl Out_Of_Bounds)
      else Inr None)"
  by pat_completeness auto
termination
  by (relation "measure (\<lambda>(s, client_socket, i). client_count s - i)") auto

declare find_socket_loop.simps [simp del]

function shift_loop :: "Client list \<Rightarrow> nat \<Rightarrow> nat \<Rightarrow> fault + Client list" where
  "shift_loop cs n j =
     (if j < n - 1 then
        (if j + 1 < length cs then shift_loop (cs[j := cs ! (j + 1)]) n (j + 1)
         else Inl Out_Of_Bounds)
      else Inr cs)"
  by pat_completeness auto
termination
  by (relation "measure (\<lambda>(cs, n, j). n - j)") auto

declare shift_loop.simps [simp del]

text \<open>The locked section of the disconnect branch. It gives the registry and the
  content of the local \<^verbatim>\<open>username\<close>, which \<^verbatim>\<open>strcpy\<close> refreshes from the entry
  found.\<close>

definition remove_client :: "int \<Rightarrow> buf \<Rightarrow> server \<Rightarrow> fault + buf \<times> server" where
  "remove_client client_socket uname s =
     then_res (find_socket_loop s client_socket 0) (\<lambda>found.
       case found of
         None \<Rightarrow> Inr (uname, s)
       | Some i \<Rightarrow>
           then_res (c_str (username (clients s ! i))) (\<lambda>name.
           then_res (strcpy uname name) (\<lambda>uname'.
           then_res (shift_loop (clients s) (client_count s) i) (\<lambda>cs.
             Inr (uname', s\<lparr>clients := cs, client_count := client_count s - 1\<rparr>)))))"

definition disconnect :: "int \<Rightarrow> buf \<Rightarrow> server \<Rightarrow> fault + server" where
  "disconnect client_socket uname s =
     then_res (remove_client client_socket uname s) (\<lambda>(uname', s1).
     then_res (c_str uname') (\<lambda>name.
     let s2 = format_whiteboard_msg MSG_TYPE_LOGOUT (name @ '' has left the chat'') s1 in
     then_res (strcpy (sender (zero_message MSG_LOGOUT)) name) (\<lambda>logout_sender.
     then_res (strcpy (content (zero_message MSG_LOGOUT)) ''has left the chat'') (\<lambda>logout_content.
     then_res (broadcast_message ((zero_message MSG_LOGOUT)\<lparr>sender := logout_sender,
                                    content := logout_content\<rparr>) client_socket s2) (\<lambda>s3.
       Inr (close_socket client_socket s3))))))"

text \<open>What one \<^verbatim>\<open>recv(client_socket, &msg, sizeof(Message), 0)\<close> of the message loop
  gives: a frame (the content of \<^verbatim>\<open>msg\<close> afterwards), or a result of 0 or less.\<close>

datatype event = Frame Message | Hangup

text \<open>One iteration of the message loop; \<open>True\<close> when the loop goes round again.\<close>

definition loop_iteration ::
  "Message \<Rightarrow> int \<Rightarrow> buf \<Rightarrow> event \<Rightarrow> server \<Rightarrow> fault + bool \<times> server" where
  "loop_iteration stack client_socket uname ev s =
     (case ev of
        Hangup \<Rightarrow> then_res (disconnect client_socket uname s) (\<lambda>s'. Inr (False, s'))
      | Frame msg \<Rightarrow>
          if msg_type msg = MSG_PRIVATE
          then then_res (send_private_message stack msg s) (\<lambda>s'. Inr (True, s'))
          else Inr (True, s))"

text \<open>The message loop over the events the connection delivers. When they run out the
  handler stays blocked in \<^verbatim>\<open>recv\<close>.\<close>

fun message_loop :: "Message \<Rightarrow> int \<Rightarrow> buf \<Rightarrow> event list \<Rightarrow> server \<Rightarrow> fault + server" where
  "message_loop stack client_socket uname [] s = Inr s"
| "message_loop stack client_socket uname (ev # evs) s =
     then_res (loop_iteration stack client_socket uname ev s) (\<lambda>(again, s').
       if again then message_loop stack client_socket uname evs s' else Inr s')"

text \<open>\<^verbatim>\<open>handle_client\<close> run alone from start to end: \<open>data\<close> is what arrives for the
  first \<^verbatim>\<open>recv\<close>, \<open>evs\<close> what the later ones give.\<close>

definition handle_client ::
  "Message \<Rightarrow> int \<Rightarrow> char list \<Rightarrow> event list \<Rightarrow> server \<Rightarrow> fault + server" where
  "handle_client stack client_socket data evs s =
     (case recv_username data of
        None \<Rightarrow> Inr (close_socket client_socket s)
      | Some uname \<Rightarrow>
          then_res (check_username client_socket uname s) (\<lambda>(go_on, s1).
            if go_on
            then then_res (admit_client client_socket uname s1)
                   (message_loop stack client_socket uname evs)
            else Inr s1))"

text \<open>\<^verbatim>\<open>main\<close> up to its accept loop.\<close>

definition started :: server where
  "started = update_whiteboard ''SERVER STARTED'' server0"

subsection \<open>Handlers running as threads\<close>

text \<open>Each handler is a detached thread. The registry is touched only between
  \<^verbatim>\<open>pthread_mutex_lock(&clients_mutex)\<close> and the matching unlock, so the threads
  interleave at the boundaries of these sections. The duplicate check takes and releases
  the lock inside \<^verbatim>\<open>find_client\<close>; the insertion takes it again. A thread is therefore
  in one of these places: before its check (the bytes of its first \<^verbatim>\<open>recv\<close> in hand),
  between check and insertion, in the message loop, or gone.\<close>

datatype phase = Connected "char list" | Admitted buf | Registered buf | Closed

type_synonym system = "server \<times> (int \<Rightarrow> phase)"

text \<open>One scheduling decision: thread \<open>c\<close> runs up to its next section boundary, or
  runs one iteration of its message loop on the event its \<^verbatim>\<open>recv\<close> returns. Running
  the sections from insertion to the login broadcast without another thread in between
  is one of the schedules the real threads have.\<close>

datatype action = Step int | Input int event

definition run_action :: "Message \<Rightarrow> action \<Rightarrow> system \<Rightarrow> fault + system" where
  "run_action stack a sys =
     (case sys of (s, ph) \<Rightarrow>
       (case a of
          Step c \<Rightarrow>
            (case ph c of
               Connected data \<Rightarrow>
                 (case recv_username data of
                    None \<Rightarrow> Inr (close_socket c s, ph(c := Closed))
                  | Some uname \<Rightarrow>
                      then_res (check_username c uname s) (\<lambda>(go_on, s1).
                        Inr (s1, ph(c := (if go_on then Admitted uname else Closed)))))
             | Admitted uname \<Rightarrow>
                 then_res (admit_client c uname s) (\<lambda>s1. Inr (s1, ph(c := Registered uname)))
             | Registered uname \<Rightarrow> Inr sys
             | Closed \<Rightarrow> Inr sys)
        | Input c ev \<Rightarrow>
            (case ph c of
               Registered uname \<Rightarrow>
                 then_res (loop_iteration stack c uname ev s) (\<lambda>(again, s1).
                   Inr (s1, ph(c := (if again then Registered uname else Closed))))
             | _ \<Rightarrow> Inr sys)))"

fun run :: "Message \<Rightarrow> action list \<Rightarrow> system \<Rightarrow> fault + system" where
  "run stack [] sys = Inr sys"
| "run stack (a # as) sys = then_res (run_action stack a sys) (run stack as)"

subsection \<open>Well-formed states and frames\<close>

text \<open>The whiteboard has its \<open>WHITEBOARD_SIZE\<close> rows and its index points at one.\<close>

definition wb_ok :: "Whiteboard \<Rightarrow> bool" where
  "wb_ok wb = (length (messages wb) = WHITEBOARD_SIZE \<and> current_index wb < WHITEBOARD_SIZE)"

text \<open>The registry array has its \<open>MAX_CLIENTS\<close> entries, each with a name field of
  \<open>MAX_USERNAME\<close> bytes, the count is within the array, and every active entry holds a
  terminated name.\<close>

definition registry_ok :: "server \<Rightarrow> bool" where
  "registry_ok s =
     (length (clients s) = MAX_CLIENTS \<and> client_count s \<le> MAX_CLIENTS \<and>
      list_all (\<lambda>c. length (username c) = MAX_USERNAME) (clients s) \<and>
      list_all (\<lambda>c. terminated (username c)) (active s))"

text \<open>The names of the sessions, in registry order.\<close>

definition names :: "server \<Rightarrow> (fault + string) list" where
  "names s = map (\<lambda>c. c_str (username c)) (active s)"

text \<open>The memory of a \<^verbatim>\<open>Message\<close> has the declared field widths.\<close>

definition message_ok :: "Message \<Rightarrow> bool" where
  "message_ok m =
     (length (sender m) = MAX_USERNAME \<and> length (recipient m) = MAX_USERNAME \<and>
      length (content m) = MAX_MESSAGE)"

text \<open>The socket of the first active session whose name is the given string.\<close>

definition lookup :: "server \<Rightarrow> string \<Rightarrow> int option" where
  "lookup s name =
     map_option socket (find (\<lambda>c. c_str (username c) = Inr name) (active s))"

text \<open>The line \<^verbatim>\<open>format_whiteboard_msg\<close> composes when nothing is cut: colour, tag,
  reset, separator and the formatted text.\<close>

definition log_line :: "ServerMsgType \<Rightarrow> string \<Rightarrow> string" where
  "log_line t text =
     fst (get_msg_properties t) @ snd (get_msg_properties t) @ ANSI_RESET @ '' - '' @ text"

text \<open>A step that leaves the registry as it is and the whiteboard in shape.\<close>

definition same_registry :: "server \<Rightarrow> server \<Rightarrow> bool" where
  "same_registry s s' =
     (clients s' = clients s \<and> client_count s' = client_count s \<and>
      (wb_ok (whiteboard s) \<longrightarrow> wb_ok (whiteboard s')))"

subsection \<open>The client's side of the wire (client.c)\<close>

text \<open>The handshake frame of the shipped client: its zeroed global \<^verbatim>\<open>username\<close>
  filled by \<^verbatim>\<open>strncpy(username, argv[1], MAX_USERNAME - 1)\<close>, all \<open>MAX_USERNAME\<close>
  bytes written to the socket.\<close>

definition client_hello :: "string \<Rightarrow> char list" where
  "client_hello name =
     take (MAX_USERNAME - 1) (takeWhile (\<lambda>c. c \<noteq> NUL) name) @
     replicate (MAX_USERNAME - length (take (MAX_USERNAME - 1) (takeWhile (\<lambda>c. c \<noteq> NUL) name))) NUL"

text \<open>\<^verbatim>\<open>send_message\<close> of the client: a private frame, each field filled by
  \<^verbatim>\<open>strncpy\<close> over the full field width.\<close>

definition client_frame :: "string \<Rightarrow> string \<Rightarrow> string \<Rightarrow> Message" where
  "client_frame from to body =
     \<lparr>msg_type = MSG_PRIVATE,
      sender = take MAX_USERNAME from @ replicate (MAX_USERNAME - length from) NUL,
      recipient = take MAX_USERNAME to @ replicate (MAX_USERNAME - length to) NUL,
      content = take MAX_MESSAGE body @ replicate (MAX_MESSAGE - length body) NUL\<rparr>"

text \<open>A user starts the shipped client under a name; the server accepts the connection
  on a socket and runs the handler, and the user types nothing.\<close>

definition connect :: "int \<times> string \<Rightarrow> fault + server \<Rightarrow> fault + server" where
  "connect c r =
     then_res r (handle_client (zero_message MSG_LOGIN) (fst c) (client_hello (snd c)) [])"

subsection \<open>A registry with two sessions\<close>

definition alice_bob :: server where
  "alice_bob = started
     \<lparr>clients := (clients started)
        [0 := \<lparr>socket = 4, username = client_hello ''alice''\<rparr>,
         1 := \<lparr>socket = 5, username = client_hello ''bob''\<rparr>],
      client_count := 2\<rparr>"

subsection \<open>Ten users, and two users of one name\<close>

definition ten_users :: "(int \<times> string) list" where
  "ten_users = [(4, ''a''), (5, ''b''), (6, ''c''), (7, ''d''), (8, ''e''),
                (9, ''f''), (10, ''g''), (11, ''h''), (12, ''i''), (13, ''j'')]"

text \<open>Two connections accepted, on sockets 4 and 5, both from the shipped client started
  as \<^verbatim>\<open>./client alice\<close>; no other thread exists.\<close>

definition two_alices :: "int \<Rightarrow> phase" where
  "two_alices = (\<lambda>c. Closed)(4 := Connected (client_hello ''alice''),
                                5 := Connected (client_hello ''alice''))"

section \<open>Properties\<close>

subsection \<open>Activity log\<close>



lemma length_rows_in_order: "length (rows_in_order wb) = WHITEBOARD_SIZE"
  by (simp add: rows_in_order_def)

lemma wb_ok_update: "wb_ok (whiteboard s) \<Longrightarrow> wb_ok (whiteboard (update_whiteboard m s))"
  by (simp add: wb_ok_def update_whiteboard_def Let_def)

lemma rows_in_order_nth:
  "i < WHITEBOARD_SIZE \<Longrightarrow>
   rows_in_order wb ! i = messages wb ! ((current_index wb + i) mod WHITEBOARD_SIZE)"
  unfolding rows_in_order_def by (subst nth_map) simp_all

lemma whiteboard_update:
  "whiteboard (update_whiteboard m s) =
     \<lparr>messages = (messages (whiteboard s))[current_index (whiteboard s) := stored_line m],
      current_index = (current_index (whiteboard s) + 1) mod WHITEBOARD_SIZE\<rparr>"
  by (simp add: update_whiteboard_def Let_def)

lemma rows_update:
  assumes "wb_ok (whiteboard s)"
  shows "rows_in_order (whiteboard (update_whiteboard m s)) =
           tl (rows_in_order (whiteboard s)) @ [stored_line m]"
proof (rule nth_equalityI)
  show "length (rows_in_order (whiteboard (update_whiteboard m s))) =
        length (tl (rows_in_order (whiteboard s)) @ [stored_line m])"
    by (simp add: length_rows_in_order)
next
  fix i assume "i < length (rows_in_order (whiteboard (update_whiteboard m s)))"
  then have i: "i < WHITEBOARD_SIZE" by (simp only: length_rows_in_order)
  let ?c = "current_index (whiteboard s)"
  let ?ms = "messages (whiteboard s)"
  have c: "?c < WHITEBOARD_SIZE" and len: "length ?ms = WHITEBOARD_SIZE"
    using assms by (simp_all add: wb_ok_def)
  have idx: "((?c + 1) mod WHITEBOARD_SIZE + i) mod WHITEBOARD_SIZE = (?c + (i + 1)) mod WHITEBOARD_SIZE"
    by (simp only: mod_add_left_eq add.assoc add.commute [of 1 i])
  have lhs: "rows_in_order (whiteboard (update_whiteboard m s)) ! i =
               (?ms[?c := stored_line m]) ! ((?c + (i + 1)) mod WHITEBOARD_SIZE)"
    unfolding rows_in_order_nth [OF i] whiteboard_update
    by (simp only: Whiteboard.simps idx)
  show "rows_in_order (whiteboard (update_whiteboard m s)) ! i =
        (tl (rows_in_order (whiteboard s)) @ [stored_line m]) ! i"
  proof (cases "i = 9")
    case True
    then have "(?c + (i + 1)) mod WHITEBOARD_SIZE = ?c" using c by simp
    with True c len lhs show ?thesis
      by (simp add: nth_append length_rows_in_order)
  next
    case False
    with i have i9: "i + 1 < WHITEBOARD_SIZE" by simp
    have ne: "(?c + (i + 1)) mod WHITEBOARD_SIZE \<noteq> ?c"
    proof (cases "?c + (i + 1) < WHITEBOARD_SIZE")
      case True
      then show ?thesis by simp
    next
      case False
      then have "(?c + (i + 1)) mod WHITEBOARD_SIZE = (?c + (i + 1) - WHITEBOARD_SIZE) mod WHITEBOARD_SIZE"
        by (simp add: le_mod_geq)
      also have "\<dots> = ?c + (i + 1) - WHITEBOARD_SIZE"
        using c i9 by (intro mod_less) linarith
      finally show ?thesis using i9 False by linarith
    qed
    have "tl (rows_in_order (whiteboard s)) ! i = rows_in_order (whiteboard s) ! (i + 1)"
      using i9 by (simp add: nth_tl length_rows_in_order)
    also have "\<dots> = ?ms ! ((?c + (i + 1)) mod WHITEBOARD_SIZE)"
      by (rule rows_in_order_nth [OF i9])
    finally show ?thesis
      using i9 ne lhs by (simp add: nth_append length_rows_in_order)
  qed
qed


lemma server0_ok: "wb_ok (whiteboard server0)"
  by (simp add: wb_ok_def server0_def)





subsection \<open>Strings and faults\<close>

lemma then_res_Inl [simp]: "then_res (Inl e) f = Inl e"
  by (simp add: then_res_def)

lemma then_res_Inr [simp]: "then_res (Inr x) f = f x"
  by (simp add: then_res_def)

lemma c_str_Inr_iff:
  "c_str b = Inr x \<longleftrightarrow> terminated b \<and> x = takeWhile (\<lambda>c. c \<noteq> NUL) b"
  by (auto simp: c_str_def)

lemma c_str_length: "c_str b = Inr x \<Longrightarrow> length x < length b"
proof -
  assume "c_str b = Inr x"
  then have t: "NUL \<in> set b" and x: "x = takeWhile (\<lambda>c. c \<noteq> NUL) b"
    by (simp_all add: c_str_Inr_iff terminated_def)
  from t have "length (takeWhile (\<lambda>c. c \<noteq> NUL) b) < length b"
    by (induction b) auto
  with x show ?thesis by simp
qed

lemma c_str_no_NUL: "c_str b = Inr x \<Longrightarrow> NUL \<notin> set x"
  by (auto simp: c_str_Inr_iff dest: set_takeWhileD)

lemma c_str_text: "NUL \<notin> set x \<Longrightarrow> c_str (x @ NUL # rest) = Inr x"
proof -
  assume "NUL \<notin> set x"
  then have "takeWhile (\<lambda>c. c \<noteq> NUL) (x @ NUL # rest) = x"
    by (induction x) auto
  then show ?thesis by (simp add: c_str_def terminated_def)
qed

lemma strcpy_Inr:
  "length x < length dst \<Longrightarrow> strcpy dst x = Inr (x @ NUL # drop (Suc (length x)) dst)"
  by (simp add: strcpy_def)

lemma strcpy_zero:
  "length x < n \<Longrightarrow> strcpy (replicate n NUL) x = Inr (x @ replicate (n - length x) NUL)"
  by (simp add: strcpy_def Suc_diff_Suc flip: replicate_Suc)

lemma strcmp_eq_Inr:
  "c_str a = Inr x \<Longrightarrow> c_str b = Inr y \<Longrightarrow> strcmp_eq a b = Inr (x = y)"
  by (simp add: strcmp_eq_def)

lemma active_nth:
  "i < client_count s \<Longrightarrow> client_count s \<le> length (clients s) \<Longrightarrow>
   drop i (active s) = clients s ! i # drop (i + 1) (active s)"
  by (simp add: active_def flip: Cons_nth_drop_Suc)

lemma active_terminated:
  "registry_ok s \<Longrightarrow> i < client_count s \<Longrightarrow> terminated (username (clients s ! i))"
proof -
  assume ok: "registry_ok s" and i: "i < client_count s"
  then have "i < length (active s)" by (simp add: registry_ok_def active_def)
  moreover have "active s ! i = clients s ! i" using i by (simp add: active_def)
  ultimately show ?thesis using ok by (auto simp: registry_ok_def list_all_length)
qed

lemma find_client_loop_lookup:
  assumes "registry_ok s" and "c_str uname = Inr name"
  shows "find_client_loop s uname i =
           Inr (map_option socket (find (\<lambda>c. c_str (username c) = Inr name) (drop i (active s))))"
  using assms
proof (induction s uname i rule: find_client_loop.induct)
  case (1 s uname i)
  show ?case
  proof (cases "i < client_count s")
    case True
    with 1(2) have len: "i < length (clients s)" and le: "client_count s \<le> length (clients s)"
      by (simp_all add: registry_ok_def)
    from True 1(2) have "terminated (username (clients s ! i))"
      by (simp add: active_terminated)
    then obtain u where u: "c_str (username (clients s ! i)) = Inr u"
      by (auto simp: c_str_def)
    have cmp: "strcmp_eq (username (clients s ! i)) uname = Inr (u = name)"
      using u 1(3) by (rule strcmp_eq_Inr)
    show ?thesis
    proof (cases "u = name")
      case same: True
      with True len cmp u show ?thesis
        by (subst find_client_loop.simps) (simp add: active_nth [OF True le])
    next
      case False
      with True len cmp have "find_client_loop s uname i = find_client_loop s uname (i + 1)"
        by (subst find_client_loop.simps) simp
      also have "\<dots> = Inr (map_option socket
          (find (\<lambda>c. c_str (username c) = Inr name) (drop (i + 1) (active s))))"
        using 1(1) [OF True len _ 1(2) 1(3)] cmp False by simp
      finally show ?thesis using u False by (simp add: active_nth [OF True le])
    qed
  next
    case False
    then show ?thesis
      by (subst find_client_loop.simps) (simp add: active_def)
  qed
qed

lemma find_client_lookup:
  "registry_ok s \<Longrightarrow> c_str uname = Inr name \<Longrightarrow> find_client s uname = Inr (lookup s name)"
  by (simp add: find_client_def lookup_def find_client_loop_lookup)

lemma active_send_frame [simp]: "active (send_frame sock msg s) = active s"
  by (simp add: active_def send_frame_def)

lemma broadcast_loop_sent:
  assumes "client_count s \<le> length (clients s)"
  shows "broadcast_loop msg ex i s =
           Inr (s\<lparr>sent := sent s @ map (\<lambda>c. (socket c, msg))
                                       (filter (\<lambda>c. socket c \<noteq> ex) (drop i (active s)))\<rparr>)"
  using assms
proof (induction msg ex i s rule: broadcast_loop.induct)
  case (1 msg ex i s)
  show ?case
  proof (cases "i < client_count s")
    case True
    with 1(2) have len: "i < length (clients s)" by simp
    let ?s1 = "if socket (clients s ! i) \<noteq> ex then send_frame (socket (clients s ! i)) msg s else s"
    have same: "clients ?s1 = clients s" "client_count ?s1 = client_count s" "active ?s1 = active s"
      by (simp_all add: send_frame_def active_def)
    have "broadcast_loop msg ex i s = broadcast_loop msg ex (i + 1) ?s1"
      using True len by (subst broadcast_loop.simps) simp
    also have "\<dots> = Inr (?s1\<lparr>sent := sent ?s1 @ map (\<lambda>c. (socket c, msg))
                         (filter (\<lambda>c. socket c \<noteq> ex) (drop (i + 1) (active ?s1)))\<rparr>)"
      using 1(1) [OF True len] 1(2) same by simp
    finally show ?thesis
      by (simp add: active_nth [OF True 1(2)] same send_frame_def)
  next
    case False
    then show ?thesis
      by (subst broadcast_loop.simps) (simp add: active_def)
  qed
qed



lemmas ANSI_defs = ANSI_RESET_def ANSI_RED_def ANSI_GREEN_def ANSI_YELLOW_def ANSI_BLUE_def
  ANSI_MAGENTA_def

lemma format_whiteboard_msg_line:
  "length text \<le> 300 \<Longrightarrow> format_whiteboard_msg t text s = update_whiteboard (log_line t text) s"
  by (cases t) (simp_all add: format_whiteboard_msg_def log_line_def ANSI_defs)

lemma stored_log_line:
  "NUL \<notin> set text \<Longrightarrow> length text \<le> 300 \<Longrightarrow> stored_line (log_line t text) = log_line t text"
proof -
  assume n: "NUL \<notin> set text" and l: "length text \<le> 300"
  have "NUL \<notin> set (log_line t text)"
    using n by (cases t) (simp_all add: log_line_def ANSI_defs NUL_def)
  then have "\<forall>c\<in>set (log_line t text). c \<noteq> NUL"
    by blast
  then have tw: "takeWhile (\<lambda>c. c \<noteq> NUL) (log_line t text) = log_line t text"
    by (simp only: takeWhile_eq_all_conv)
  have "length (log_line t text) \<le> 325"
    using l by (cases t) (simp_all add: log_line_def ANSI_defs)
  then show ?thesis by (simp add: stored_line_def tw)
qed

lemma update_whiteboard_frame [simp]:
  "clients (update_whiteboard m s) = clients s"
  "client_count (update_whiteboard m s) = client_count s"
  "sent (update_whiteboard m s) = sent s"
  "closed (update_whiteboard m s) = closed s"
  "active (update_whiteboard m s) = active s"
  by (simp_all add: update_whiteboard_def Let_def active_def)

lemma send_frame_frame [simp]:
  "clients (send_frame c m s) = clients s"
  "client_count (send_frame c m s) = client_count s"
  "whiteboard (send_frame c m s) = whiteboard s"
  "closed (send_frame c m s) = closed s"
  "sent (send_frame c m s) = sent s @ [(c, m)]"
  by (simp_all add: send_frame_def)

lemma whiteboard_update_sent [simp]:
  "whiteboard (update_whiteboard m (s\<lparr>sent := x\<rparr>)) = whiteboard (update_whiteboard m s)"
  by (simp add: whiteboard_update)

lemma whiteboard_update_send_frame [simp]:
  "whiteboard (update_whiteboard m (send_frame c f s)) = whiteboard (update_whiteboard m s)"
  by (simp add: whiteboard_update)

lemma broadcast_message_effect:
  assumes "client_count s \<le> length (clients s)"
    and "c_str (sender msg) = Inr from" and "c_str (content msg) = Inr body"
    and "length from < MAX_USERNAME" and "length body < MAX_MESSAGE"
  shows "\<exists>s'. broadcast_message msg ex s = Inr s'
     \<and> sent s' = sent s @ map (\<lambda>c. (socket c, msg)) (filter (\<lambda>c. socket c \<noteq> ex) (active s))
     \<and> whiteboard s' = whiteboard (update_whiteboard (log_line MSG_TYPE_BROADCAST (from @ '': '' @ body)) s)
     \<and> clients s' = clients s \<and> client_count s' = client_count s \<and> closed s' = closed s"
proof -
  define body_text where "body_text = from @ '': '' @ body"
  define s1 where "s1 = s\<lparr>sent := sent s @ map (\<lambda>c. (socket c, msg))
                                       (filter (\<lambda>c. socket c \<noteq> ex) (active s))\<rparr>"
  have len: "length body_text \<le> 300"
    using assms(4,5) by (simp add: body_text_def)
  have "broadcast_message msg ex s = Inr (format_whiteboard_msg MSG_TYPE_BROADCAST body_text s1)"
    using assms(2,3)
    by (simp add: broadcast_message_def broadcast_loop_sent [OF assms(1)] body_text_def s1_def)
  then have "broadcast_message msg ex s = Inr (update_whiteboard (log_line MSG_TYPE_BROADCAST body_text) s1)"
    by (simp only: format_whiteboard_msg_line [OF len])
  then show ?thesis
    unfolding body_text_def [symmetric] by (simp add: s1_def)
qed


lemma strcpy_c_str:
  assumes "length x < length dst" and "NUL \<notin> set x"
  shows "\<exists>b. strcpy dst x = Inr b \<and> c_str b = Inr x \<and> length b = length dst"
  using assms by (simp add: strcpy_Inr c_str_text)

lemma private_unknown_recipient:
  assumes ok: "registry_ok s" and st: "message_ok stack" and m: "message_ok msg"
    and "from": "c_str (sender msg) = Inr from" and to: "c_str (recipient msg) = Inr to"
    and absent: "lookup s to = None"
  shows "\<exists>err. send_private_message stack msg s =
           Inr (update_whiteboard
                  (log_line MSG_TYPE_ERROR (from @ '' tried to message non-existent user '' @ to))
                  (case lookup s from of Some c \<Rightarrow> send_frame c err s | None \<Rightarrow> s))
         \<and> msg_type err = MSG_ERROR \<and> c_str (sender err) = Inr ''Server''
         \<and> c_str (content err) =
               Inr (''User '' @ [CHR 0x27] @ to @ [CHR 0x27] @ '' does not exist or is offline'')
         \<and> recipient err = recipient stack"
proof -
  define reply where
    "reply = ''User '' @ [CHR 0x27] @ to @ [CHR 0x27] @ '' does not exist or is offline''"
  define entry where "entry = from @ '' tried to message non-existent user '' @ to"
  have lf: "length from < MAX_USERNAME" and lt: "length to < MAX_USERNAME"
    using c_str_length [OF "from"] c_str_length [OF to] m by (simp_all add: message_ok_def)
  have nt: "NUL \<notin> set to" by (rule c_str_no_NUL [OF to])
  have "length reply < length (content stack)" "NUL \<notin> set reply"
    using lt nt st by (simp_all add: reply_def message_ok_def NUL_def)
  then obtain ec where ec: "strcpy (content stack) reply = Inr ec" "c_str ec = Inr reply"
    using strcpy_c_str by blast
  have "length ''Server'' < length (sender stack)" "NUL \<notin> set ''Server''"
    using st by (simp_all add: message_ok_def NUL_def)
  then obtain es where es: "strcpy (sender stack) ''Server'' = Inr es" "c_str es = Inr ''Server''"
    using strcpy_c_str by blast
  define err where "err = stack\<lparr>msg_type := MSG_ERROR, content := ec, sender := es\<rparr>"
  have len: "length entry \<le> 300"
    using lf lt by (simp add: entry_def)
  have "send_private_message stack msg s =
          Inr (format_whiteboard_msg MSG_TYPE_ERROR entry
                 (case lookup s from of Some c \<Rightarrow> send_frame c err s | None \<Rightarrow> s))"
    using ec(1) es(1) absent
    unfolding send_private_message_def find_client_lookup [OF ok to]
      find_client_lookup [OF ok "from"] "from" to err_def
    by (simp add: reply_def entry_def)
  then have "send_private_message stack msg s =
          Inr (update_whiteboard (log_line MSG_TYPE_ERROR entry)
                 (case lookup s from of Some c \<Rightarrow> send_frame c err s | None \<Rightarrow> s))"
    by (simp only: format_whiteboard_msg_line [OF len])
  moreover have "msg_type err = MSG_ERROR" "c_str (sender err) = Inr ''Server''"
      "c_str (content err) = Inr reply" "recipient err = recipient stack"
    using ec(2) es(2) by (simp_all add: err_def)
  ultimately show ?thesis
    unfolding reply_def entry_def by blast
qed

lemma private_known_recipient:
  assumes ok: "registry_ok s" and m: "message_ok msg"
    and "from": "c_str (sender msg) = Inr from" and to: "c_str (recipient msg) = Inr to"
    and body: "c_str (content msg) = Inr body"
    and present: "lookup s to = Some recipient_socket"
  shows "send_private_message stack msg s =
           Inr (update_whiteboard
                  (log_line MSG_TYPE_PRIVATE (from @ '' to '' @ to @ '': '' @ body))
                  (send_frame recipient_socket msg s))"
proof -
  define entry where "entry = from @ '' to '' @ to @ '': '' @ body"
  have "length from < MAX_USERNAME" "length to < MAX_USERNAME" "length body < MAX_MESSAGE"
    using c_str_length [OF "from"] c_str_length [OF to] c_str_length [OF body] m
    by (simp_all add: message_ok_def)
  then have len: "length entry \<le> 300"
    by (simp add: entry_def)
  have "send_private_message stack msg s =
          Inr (format_whiteboard_msg MSG_TYPE_PRIVATE entry (send_frame recipient_socket msg s))"
    using present
    unfolding send_private_message_def find_client_lookup [OF ok to] "from" to body
    by (simp add: Let_def entry_def)
  then show ?thesis
    unfolding entry_def [symmetric] by (simp only: format_whiteboard_msg_line [OF len])
qed

lemma log_rows:
  assumes "wb_ok (whiteboard s)" and "NUL \<notin> set x" and "length x \<le> 300"
    and "whiteboard s1 = whiteboard s"
  shows "rows_in_order (whiteboard (update_whiteboard (log_line t x) s1)) =
           tl (rows_in_order (whiteboard s)) @ [log_line t x]"
  using assms rows_update [of s1 "log_line t x"] by (simp add: stored_log_line)

subsection \<open>The two-session registry\<close>

lemma alice_bob_ok: "registry_ok alice_bob"
  by code_simp

lemma alice_bob_wb_ok: "wb_ok (whiteboard alice_bob)"
  by (simp add: alice_bob_def started_def wb_ok_update server0_ok)

lemma alice_bob_sent: "sent alice_bob = []"
  by code_simp

subsection \<open>Routing\<close>

text \<open>The bytes of a PRIVATE line and of an ERROR line: the escape sequence of the colour
  (magenta is 35, red is 31), the tag, the reset sequence, the separator, the text.\<close>

lemma log_line_private:
  "log_line MSG_TYPE_PRIVATE x =
     [CHR 0x1B, CHR ''['', CHR ''3'', CHR ''5'', CHR ''m''] @ ''PRIVATE'' @
     [CHR 0x1B, CHR ''['', CHR ''0'', CHR ''m''] @ '' - '' @ x"
  by (simp add: log_line_def ANSI_MAGENTA_def ANSI_RESET_def)

lemma log_line_error:
  "log_line MSG_TYPE_ERROR x =
     [CHR 0x1B, CHR ''['', CHR ''3'', CHR ''1'', CHR ''m''] @ ''ERROR'' @
     [CHR 0x1B, CHR ''['', CHR ''0'', CHR ''m''] @ '' - '' @ x"
  by (simp add: log_line_def ANSI_RED_def ANSI_RESET_def)

text \<open>C5. A private message whose recipient names an active session is passed to
  \<^verbatim>\<open>send\<close> once, unchanged, on the socket of that session and on no other; the whiteboard
  gains one line, given here byte for byte: the magenta escape sequence, the tag PRIVATE,
  the reset sequence, the separator, then sender, recipient and content; the registry is
  untouched and nothing is closed. The frame has the declared field widths and its three
  strings are terminated.\<close>

theorem private_message_delivered:
  assumes "registry_ok s" and "wb_ok (whiteboard s)" and "message_ok msg"
    and "c_str (sender msg) = Inr from" and "c_str (recipient msg) = Inr to"
    and "c_str (content msg) = Inr body"
    and "lookup s to = Some recipient_socket"
  shows "\<exists>s'. send_private_message stack msg s = Inr s'
     \<and> sent s' = sent s @ [(recipient_socket, msg)]
     \<and> rows_in_order (whiteboard s') =
         tl (rows_in_order (whiteboard s)) @
         [[CHR 0x1B, CHR ''['', CHR ''3'', CHR ''5'', CHR ''m''] @ ''PRIVATE'' @
          [CHR 0x1B, CHR ''['', CHR ''0'', CHR ''m''] @ '' - '' @
          from @ '' to '' @ to @ '': '' @ body]
     \<and> clients s' = clients s \<and> client_count s' = client_count s \<and> closed s' = closed s"
proof -
  define entry where "entry = from @ '' to '' @ to @ '': '' @ body"
  have "length from < MAX_USERNAME" "length to < MAX_USERNAME" "length body < MAX_MESSAGE"
    using assms(3-6) c_str_length [of "sender msg" "from"] c_str_length [of "recipient msg" to]
      c_str_length [of "content msg" body]
    by (simp_all add: message_ok_def)
  then have len: "length entry \<le> 300" by (simp add: entry_def)
  have nul: "NUL \<notin> set entry"
    using assms(4-6) c_str_no_NUL [of "sender msg" "from"] c_str_no_NUL [of "recipient msg" to]
      c_str_no_NUL [of "content msg" body]
    by (simp add: entry_def NUL_def)
  have run: "send_private_message stack msg s =
          Inr (update_whiteboard (log_line MSG_TYPE_PRIVATE entry) (send_frame recipient_socket msg s))"
    unfolding entry_def
    by (rule private_known_recipient [OF assms(1) assms(3) assms(4) assms(5) assms(6) assms(7)])
  have rows: "rows_in_order (whiteboard (update_whiteboard (log_line MSG_TYPE_PRIVATE entry)
                  (send_frame recipient_socket msg s))) =
          tl (rows_in_order (whiteboard s)) @ [log_line MSG_TYPE_PRIVATE entry]"
    by (rule log_rows [OF assms(2) nul len]) simp
  show ?thesis
    using run rows unfolding log_line_private entry_def by simp
qed

theorem private_message_delivered_witness:
  "registry_ok alice_bob \<and> wb_ok (whiteboard alice_bob)
   \<and> message_ok (client_frame ''alice'' ''bob'' ''hi'')
   \<and> lookup alice_bob ''bob'' = Some 5
   \<and> (\<exists>s'. send_private_message (zero_message MSG_LOGIN) (client_frame ''alice'' ''bob'' ''hi'')
              alice_bob = Inr s'
        \<and> sent s' = [(5, client_frame ''alice'' ''bob'' ''hi'')]
        \<and> rows_in_order (whiteboard s') =
            tl (rows_in_order (whiteboard alice_bob)) @
            [[CHR 0x1B, CHR ''['', CHR ''3'', CHR ''5'', CHR ''m''] @ ''PRIVATE'' @
             [CHR 0x1B, CHR ''['', CHR ''0'', CHR ''m''] @ '' - alice to bob: hi''])"
proof -
  have m: "message_ok (client_frame ''alice'' ''bob'' ''hi'')" by code_simp
  have f: "c_str (sender (client_frame ''alice'' ''bob'' ''hi'')) = Inr ''alice''" by code_simp
  have t: "c_str (recipient (client_frame ''alice'' ''bob'' ''hi'')) = Inr ''bob''" by code_simp
  have b: "c_str (content (client_frame ''alice'' ''bob'' ''hi'')) = Inr ''hi''" by code_simp
  have l: "lookup alice_bob ''bob'' = Some 5" by code_simp
  show ?thesis
    using private_message_delivered [OF alice_bob_ok alice_bob_wb_ok m f t b l,
        of "zero_message MSG_LOGIN"] alice_bob_ok alice_bob_wb_ok m l
    by (auto simp add: alice_bob_sent)
qed

text \<open>C6. \<^verbatim>\<open>broadcast_message\<close> passes the message to \<^verbatim>\<open>send\<close> once for each
  session active at the call whose socket is not the excluded one, in registry order, and
  for nothing else; the whiteboard gains one line, tagged BROADCAST, with sender and
  content.\<close>

theorem broadcast_delivery:
  assumes "client_count s \<le> length (clients s)" and "wb_ok (whiteboard s)"
    and "message_ok msg"
    and "c_str (sender msg) = Inr from" and "c_str (content msg) = Inr body"
  shows "\<exists>s'. broadcast_message msg excluded s = Inr s'
     \<and> sent s' = sent s @
           map (\<lambda>c. (socket c, msg)) (filter (\<lambda>c. socket c \<noteq> excluded) (active s))
     \<and> rows_in_order (whiteboard s') =
         tl (rows_in_order (whiteboard s)) @
         [log_line MSG_TYPE_BROADCAST (from @ '': '' @ body)]
     \<and> clients s' = clients s \<and> client_count s' = client_count s \<and> closed s' = closed s"
proof -
  define entry where "entry = from @ '': '' @ body"
  have lens: "length from < MAX_USERNAME" "length body < MAX_MESSAGE"
    using assms(3-5) c_str_length [of "sender msg" "from"] c_str_length [of "content msg" body]
    by (simp_all add: message_ok_def)
  then have len: "length entry \<le> 300" by (simp add: entry_def)
  have nul: "NUL \<notin> set entry"
    using assms(4,5) c_str_no_NUL [of "sender msg" "from"] c_str_no_NUL [of "content msg" body]
    by (simp add: entry_def NUL_def)
  obtain s' where s': "broadcast_message msg excluded s = Inr s'"
      "sent s' = sent s @
         map (\<lambda>c. (socket c, msg)) (filter (\<lambda>c. socket c \<noteq> excluded) (active s))"
      "whiteboard s' = whiteboard (update_whiteboard (log_line MSG_TYPE_BROADCAST entry) s)"
      "clients s' = clients s" "client_count s' = client_count s" "closed s' = closed s"
    using broadcast_message_effect [OF assms(1) assms(4) assms(5) lens, of excluded]
    unfolding entry_def by blast
  have "rows_in_order (whiteboard s') =
          tl (rows_in_order (whiteboard s)) @ [log_line MSG_TYPE_BROADCAST entry]"
    unfolding s'(3) by (rule log_rows [OF assms(2) nul len refl])
  with s' show ?thesis
    unfolding entry_def by blast
qed

theorem broadcast_delivery_witness:
  "client_count alice_bob \<le> length (clients alice_bob) \<and> wb_ok (whiteboard alice_bob)
   \<and> message_ok (client_frame ''alice'' [] ''has joined the chat'')
   \<and> (\<exists>s'. broadcast_message (client_frame ''alice'' [] ''has joined the chat'') 4 alice_bob
                = Inr s'
        \<and> sent s' = [(5, client_frame ''alice'' [] ''has joined the chat'')]
        \<and> rows_in_order (whiteboard s') =
            tl (rows_in_order (whiteboard alice_bob)) @
            [log_line MSG_TYPE_BROADCAST ''alice: has joined the chat''])"
proof -
  have c: "client_count alice_bob \<le> length (clients alice_bob)" by code_simp
  have m: "message_ok (client_frame ''alice'' [] ''has joined the chat'')" by code_simp
  have f: "c_str (sender (client_frame ''alice'' [] ''has joined the chat'')) = Inr ''alice''"
    by code_simp
  have b: "c_str (content (client_frame ''alice'' [] ''has joined the chat'')) =
             Inr ''has joined the chat''"
    by code_simp
  have a: "map (\<lambda>c. (socket c, client_frame ''alice'' [] ''has joined the chat''))
             (filter (\<lambda>c. socket c \<noteq> 4) (active alice_bob)) =
           [(5, client_frame ''alice'' [] ''has joined the chat'')]"
    by code_simp
  show ?thesis
    using broadcast_delivery [OF c alice_bob_wb_ok m f b, of 4] c alice_bob_wb_ok m
    by (auto simp add: alice_bob_sent a)
qed

lemma unknown_recipient_effect:
  assumes ok: "registry_ok s" and wb: "wb_ok (whiteboard s)"
    and st: "message_ok stack" and m: "message_ok msg"
    and "from": "c_str (sender msg) = Inr from" and to: "c_str (recipient msg) = Inr to"
    and absent: "lookup s to = None"
  shows "\<exists>s' err. send_private_message stack msg s = Inr s'
     \<and> msg_type err = MSG_ERROR \<and> c_str (sender err) = Inr ''Server''
     \<and> c_str (content err) =
           Inr (''User '' @ [CHR 0x27] @ to @ [CHR 0x27] @ '' does not exist or is offline'')
     \<and> sent s' = sent s @ (case lookup s from of Some c \<Rightarrow> [(c, err)] | None \<Rightarrow> [])
     \<and> rows_in_order (whiteboard s') =
         tl (rows_in_order (whiteboard s)) @
         [log_line MSG_TYPE_ERROR (from @ '' tried to message non-existent user '' @ to)]
     \<and> clients s' = clients s \<and> client_count s' = client_count s \<and> closed s' = closed s"
proof -
  define entry where "entry = from @ '' tried to message non-existent user '' @ to"
  have "length from < MAX_USERNAME" "length to < MAX_USERNAME"
    using c_str_length [OF "from"] c_str_length [OF to] m by (simp_all add: message_ok_def)
  then have len: "length entry \<le> 300" by (simp add: entry_def)
  have nul: "NUL \<notin> set entry"
    using c_str_no_NUL [OF "from"] c_str_no_NUL [OF to] by (simp add: entry_def NUL_def)
  obtain err where err: "send_private_message stack msg s =
        Inr (update_whiteboard (log_line MSG_TYPE_ERROR entry)
               (case lookup s from of Some c \<Rightarrow> send_frame c err s | None \<Rightarrow> s))"
      "msg_type err = MSG_ERROR" "c_str (sender err) = Inr ''Server''"
      "c_str (content err) =
         Inr (''User '' @ [CHR 0x27] @ to @ [CHR 0x27] @ '' does not exist or is offline'')"
    using private_unknown_recipient [OF ok st m "from" to absent]
    unfolding entry_def by blast
  define s1 where "s1 = (case lookup s from of Some c \<Rightarrow> send_frame c err s | None \<Rightarrow> s)"
  have s1: "whiteboard s1 = whiteboard s" "clients s1 = clients s"
      "client_count s1 = client_count s" "closed s1 = closed s"
      "sent s1 = sent s @ (case lookup s from of Some c \<Rightarrow> [(c, err)] | None \<Rightarrow> [])"
    by (simp_all add: s1_def split: option.split)
  have rows: "rows_in_order (whiteboard (update_whiteboard (log_line MSG_TYPE_ERROR entry) s1)) =
          tl (rows_in_order (whiteboard s)) @ [log_line MSG_TYPE_ERROR entry]"
    by (rule log_rows [OF wb nul len s1(1)])
  have "send_private_message stack msg s = Inr (update_whiteboard (log_line MSG_TYPE_ERROR entry) s1)"
    using err(1) by (simp only: s1_def)
  with rows s1 err(2-4) show ?thesis
    unfolding entry_def by (intro exI [of _ "update_whiteboard _ s1"] exI [of _ err]) simp
qed

text \<open>C4. A private message whose recipient names no active session reaches no recipient.
  What \<^verbatim>\<open>send_private_message\<close> sends is decided by the registry entry found under the
  sender field of the message, which is all it knows of the original sender: when there
  is one, exactly one frame goes out, on that socket, of kind error, from ``Server'',
  reading that the recipient does not exist or is offline; when there is none, nothing
  goes out. The whiteboard gains one line, given here byte for byte: the red escape
  sequence, the tag ERROR, the reset sequence, the separator, then the sender and the
  attempted recipient; the registry is untouched and no socket is closed.\<close>

theorem unknown_recipient_reply:
  assumes "registry_ok s" and "wb_ok (whiteboard s)"
    and "message_ok stack" and "message_ok msg"
    and "c_str (sender msg) = Inr from" and "c_str (recipient msg) = Inr to"
    and "lookup s to = None"
  shows "\<exists>s' err. send_private_message stack msg s = Inr s'
     \<and> msg_type err = MSG_ERROR \<and> c_str (sender err) = Inr ''Server''
     \<and> c_str (content err) =
           Inr (''User '' @ [CHR 0x27] @ to @ [CHR 0x27] @ '' does not exist or is offline'')
     \<and> sent s' = sent s @ (case lookup s from of Some c \<Rightarrow> [(c, err)] | None \<Rightarrow> [])
     \<and> rows_in_order (whiteboard s') =
         tl (rows_in_order (whiteboard s)) @
         [[CHR 0x1B, CHR ''['', CHR ''3'', CHR ''1'', CHR ''m''] @ ''ERROR'' @
          [CHR 0x1B, CHR ''['', CHR ''0'', CHR ''m''] @ '' - '' @
          from @ '' tried to message non-existent user '' @ to]
     \<and> clients s' = clients s \<and> client_count s' = client_count s \<and> closed s' = closed s"
  using unknown_recipient_effect [OF assms] unfolding log_line_error by simp

theorem unknown_recipient_reply_witness:
  "registry_ok alice_bob \<and> wb_ok (whiteboard alice_bob)
   \<and> message_ok (zero_message MSG_LOGIN) \<and> message_ok (client_frame ''alice'' ''carol'' ''hi'')
   \<and> lookup alice_bob ''carol'' = None
   \<and> (\<exists>s' err. send_private_message (zero_message MSG_LOGIN)
                  (client_frame ''alice'' ''carol'' ''hi'') alice_bob = Inr s'
        \<and> msg_type err = MSG_ERROR \<and> c_str (sender err) = Inr ''Server''
        \<and> c_str (content err) = Inr (''User '' @ [CHR 0x27] @ ''carol'' @ [CHR 0x27] @
                                       '' does not exist or is offline'')
        \<and> sent s' = [(4, err)]
        \<and> rows_in_order (whiteboard s') =
            tl (rows_in_order (whiteboard alice_bob)) @
            [[CHR 0x1B, CHR ''['', CHR ''3'', CHR ''1'', CHR ''m''] @ ''ERROR'' @
             [CHR 0x1B, CHR ''['', CHR ''0'', CHR ''m''] @ '' - alice tried to message non-existent user carol'']
        \<and> closed s' = [])"
proof -
  have st: "message_ok (zero_message MSG_LOGIN)" by code_simp
  have m: "message_ok (client_frame ''alice'' ''carol'' ''hi'')" by code_simp
  have f: "c_str (sender (client_frame ''alice'' ''carol'' ''hi'')) = Inr ''alice''" by code_simp
  have t: "c_str (recipient (client_frame ''alice'' ''carol'' ''hi'')) = Inr ''carol''" by code_simp
  have l: "lookup alice_bob ''carol'' = None" by code_simp
  have a: "lookup alice_bob ''alice'' = Some 4" by code_simp
  have c: "closed alice_bob = []" by code_simp
  show ?thesis
    using unknown_recipient_reply [OF alice_bob_ok alice_bob_wb_ok st m f t l]
      alice_bob_ok alice_bob_wb_ok st m l
    by (simp add: alice_bob_sent a c) blast
qed

subsection \<open>Message loop\<close>

text \<open>C10. A frame received in the message loop whose kind is not private changes
  nothing: the iteration returns the state it was given (registry, whiteboard, frames
  sent, sockets closed) and the loop goes round again; as a thread step it leaves the
  whole system as it was.\<close>

theorem other_kinds_ignored:
  assumes "msg_type msg \<noteq> MSG_PRIVATE"
  shows "loop_iteration stack client_socket uname (Frame msg) s = Inr (True, s)
     \<and> (ph client_socket = Registered uname \<longrightarrow>
          run_action stack (Input client_socket (Frame msg)) (s, ph) = Inr (s, ph))"
proof -
  have it: "loop_iteration stack client_socket uname (Frame msg) s = Inr (True, s)"
    using assms by (simp add: loop_iteration_def)
  then show ?thesis
    by (simp add: run_action_def fun_upd_idem)
qed

theorem other_kinds_ignored_witness:
  "msg_type ((client_frame ''alice'' ''bob'' ''hi'')\<lparr>msg_type := MSG_BROADCAST\<rparr>) \<noteq> MSG_PRIVATE
   \<and> ((\<lambda>c. Closed)(4 := Registered (client_hello ''alice''))) 4 = Registered (client_hello ''alice'')
   \<and> loop_iteration (zero_message MSG_LOGIN) 4 (client_hello ''alice'')
        (Frame ((client_frame ''alice'' ''bob'' ''hi'')\<lparr>msg_type := MSG_BROADCAST\<rparr>)) alice_bob
       = Inr (True, alice_bob)
   \<and> run_action (zero_message MSG_LOGIN)
        (Input 4 (Frame ((client_frame ''alice'' ''bob'' ''hi'')\<lparr>msg_type := MSG_BROADCAST\<rparr>)))
        (alice_bob, (\<lambda>c. Closed)(4 := Registered (client_hello ''alice'')))
       = Inr (alice_bob, (\<lambda>c. Closed)(4 := Registered (client_hello ''alice'')))"
  using other_kinds_ignored
    [of "(client_frame ''alice'' ''bob'' ''hi'')\<lparr>msg_type := MSG_BROADCAST\<rparr>"
        "zero_message MSG_LOGIN" 4 "client_hello ''alice''" alice_bob
        "(\<lambda>c. Closed)(4 := Registered (client_hello ''alice''))"]
  by simp

text \<open>C9. In the message loop of the connection \<open>client_socket\<close>, the error reply
  for an unknown recipient goes to the session found under the sender field of the frame,
  whichever connection delivered it. When that session is another connection, the reply
  is added to what that one receives and the delivering connection receives nothing;
  when no session bears the name, nothing is sent. The ERROR line is logged either way.\<close>

theorem error_reply_by_sender_name:
  assumes "registry_ok s" and "wb_ok (whiteboard s)"
    and "message_ok stack" and "message_ok msg" and "msg_type msg = MSG_PRIVATE"
    and "c_str (sender msg) = Inr from" and "c_str (recipient msg) = Inr to"
    and "lookup s to = None"
  shows "\<exists>s' err. loop_iteration stack client_socket uname (Frame msg) s = Inr (True, s')
     \<and> msg_type err = MSG_ERROR
     \<and> sent s' = sent s @ (case lookup s from of Some c \<Rightarrow> [(c, err)] | None \<Rightarrow> [])
     \<and> (\<forall>c. lookup s from = Some c \<and> c \<noteq> client_socket \<longrightarrow>
            filter (\<lambda>(k, f). k = c) (sent s') = filter (\<lambda>(k, f). k = c) (sent s) @ [(c, err)]
          \<and> filter (\<lambda>(k, f). k = client_socket) (sent s') =
              filter (\<lambda>(k, f). k = client_socket) (sent s))
     \<and> (lookup s from = None \<longrightarrow> sent s' = sent s)
     \<and> rows_in_order (whiteboard s') =
         tl (rows_in_order (whiteboard s)) @
         [log_line MSG_TYPE_ERROR (from @ '' tried to message non-existent user '' @ to)]"
proof -
  obtain s' err where *: "send_private_message stack msg s = Inr s'"
      "msg_type err = MSG_ERROR"
      "sent s' = sent s @ (case lookup s from of Some c \<Rightarrow> [(c, err)] | None \<Rightarrow> [])"
      "rows_in_order (whiteboard s') =
         tl (rows_in_order (whiteboard s)) @
         [log_line MSG_TYPE_ERROR (from @ '' tried to message non-existent user '' @ to)]"
    using unknown_recipient_effect [OF assms(1-4) assms(6-8)] by blast
  have "loop_iteration stack client_socket uname (Frame msg) s = Inr (True, s')"
    using assms(5) *(1) by (simp add: loop_iteration_def)
  with * show ?thesis
    by (intro exI [of _ s'] exI [of _ err]) auto
qed

theorem error_reply_by_sender_name_witness:
  "registry_ok alice_bob \<and> wb_ok (whiteboard alice_bob)
   \<and> message_ok (zero_message MSG_LOGIN) \<and> message_ok (client_frame ''bob'' ''carol'' ''hi'')
   \<and> msg_type (client_frame ''bob'' ''carol'' ''hi'') = MSG_PRIVATE
   \<and> lookup alice_bob ''carol'' = None \<and> lookup alice_bob ''bob'' = Some 5
   \<and> (\<exists>s' err. loop_iteration (zero_message MSG_LOGIN) 4 (client_hello ''alice'')
                  (Frame (client_frame ''bob'' ''carol'' ''hi'')) alice_bob = Inr (True, s')
        \<and> msg_type err = MSG_ERROR \<and> sent s' = [(5, err)])
   \<and> message_ok (client_frame ''dave'' ''carol'' ''hi'')
   \<and> msg_type (client_frame ''dave'' ''carol'' ''hi'') = MSG_PRIVATE
   \<and> lookup alice_bob ''dave'' = None
   \<and> (\<exists>s'. loop_iteration (zero_message MSG_LOGIN) 4 (client_hello ''alice'')
                  (Frame (client_frame ''dave'' ''carol'' ''hi'')) alice_bob = Inr (True, s')
        \<and> sent s' = []
        \<and> rows_in_order (whiteboard s') =
            tl (rows_in_order (whiteboard alice_bob)) @
            [log_line MSG_TYPE_ERROR ''dave tried to message non-existent user carol''])"
proof -
  have st: "message_ok (zero_message MSG_LOGIN)" by code_simp
  have m: "message_ok (client_frame ''bob'' ''carol'' ''hi'')" by code_simp
  have k: "msg_type (client_frame ''bob'' ''carol'' ''hi'') = MSG_PRIVATE" by code_simp
  have f: "c_str (sender (client_frame ''bob'' ''carol'' ''hi'')) = Inr ''bob''" by code_simp
  have t: "c_str (recipient (client_frame ''bob'' ''carol'' ''hi'')) = Inr ''carol''" by code_simp
  have m2: "message_ok (client_frame ''dave'' ''carol'' ''hi'')" by code_simp
  have k2: "msg_type (client_frame ''dave'' ''carol'' ''hi'') = MSG_PRIVATE" by code_simp
  have f2: "c_str (sender (client_frame ''dave'' ''carol'' ''hi'')) = Inr ''dave''" by code_simp
  have t2: "c_str (recipient (client_frame ''dave'' ''carol'' ''hi'')) = Inr ''carol''" by code_simp
  have l: "lookup alice_bob ''carol'' = None" by code_simp
  have b: "lookup alice_bob ''bob'' = Some 5" by code_simp
  have d: "lookup alice_bob ''dave'' = None" by code_simp
  have spoofed: "\<exists>s' err. loop_iteration (zero_message MSG_LOGIN) 4 (client_hello ''alice'')
                  (Frame (client_frame ''bob'' ''carol'' ''hi'')) alice_bob = Inr (True, s')
        \<and> msg_type err = MSG_ERROR \<and> sent s' = [(5, err)]"
    using error_reply_by_sender_name [OF alice_bob_ok alice_bob_wb_ok st m k f t l,
        of 4 "client_hello ''alice''"]
    by (simp add: alice_bob_sent b) blast
  have dropped: "\<exists>s'. loop_iteration (zero_message MSG_LOGIN) 4 (client_hello ''alice'')
                  (Frame (client_frame ''dave'' ''carol'' ''hi'')) alice_bob = Inr (True, s')
        \<and> sent s' = []
        \<and> rows_in_order (whiteboard s') =
            tl (rows_in_order (whiteboard alice_bob)) @
            [log_line MSG_TYPE_ERROR ''dave tried to message non-existent user carol'']"
    using error_reply_by_sender_name [OF alice_bob_ok alice_bob_wb_ok st m2 k2 f2 t2 l,
        of 4 "client_hello ''alice''"]
    by (simp add: alice_bob_sent d) blast
  show ?thesis
    using spoofed dropped alice_bob_ok alice_bob_wb_ok st m k l b m2 k2 d
    by (intro conjI)
qed


subsection \<open>Handshake\<close>

lemma recv_username_length: "recv_username data = Some uname \<Longrightarrow> length uname = MAX_USERNAME"
  by (auto simp: recv_username_def split: if_splits)

lemma lookup_Some_iff:
  "(\<exists>k. lookup s name = Some k) \<longleftrightarrow> (\<exists>c\<in>set (active s). c_str (username c) = Inr name)"
proof -
  have "lookup s name \<noteq> None \<longleftrightarrow>
          (\<exists>c. c \<in> set (active s) \<and> c_str (username c) = Inr name)"
    by (simp add: lookup_def find_None_iff)
  then show ?thesis by auto
qed

lemma check_username_duplicate:
  assumes ok: "registry_ok s" and len: "length uname = MAX_USERNAME"
    and name: "c_str uname = Inr name" and held: "lookup s name = Some k"
  shows "\<exists>err. check_username client_socket uname s =
           Inr (False, s\<lparr>sent := sent s @ [(client_socket, err)],
                          closed := closed s @ [client_socket]\<rparr>)
     \<and> msg_type err = MSG_ERROR \<and> c_str (sender err) = Inr ''Server''
     \<and> c_str (content err) =
           Inr (''Username '' @ [CHR 0x27] @ name @ [CHR 0x27] @ '' is already in use'')
     \<and> recipient err = replicate MAX_USERNAME NUL"
proof -
  define reply where
    "reply = ''Username '' @ [CHR 0x27] @ name @ [CHR 0x27] @ '' is already in use''"
  have ln: "length name < MAX_USERNAME"
    using c_str_length [OF name] len by simp
  have nn: "NUL \<notin> set name" by (rule c_str_no_NUL [OF name])
  have "length reply < length (content (zero_message MSG_ERROR))" "NUL \<notin> set reply"
    using ln nn by (simp_all add: reply_def zero_message_def NUL_def)
  then obtain ec where ec: "strcpy (content (zero_message MSG_ERROR)) reply = Inr ec"
      "c_str ec = Inr reply"
    using strcpy_c_str by blast
  have "length ''Server'' < length (sender (zero_message MSG_ERROR))" "NUL \<notin> set ''Server''"
    by (simp_all add: zero_message_def NUL_def)
  then obtain es where es: "strcpy (sender (zero_message MSG_ERROR)) ''Server'' = Inr es"
      "c_str es = Inr ''Server''"
    using strcpy_c_str by blast
  define err where "err = (zero_message MSG_ERROR)\<lparr>content := ec, sender := es\<rparr>"
  have "check_username client_socket uname s =
          Inr (False, close_socket client_socket (send_frame client_socket err s))"
    using ec(1) es(1) held
    unfolding check_username_def find_client_lookup [OF ok name] name err_def
    by (simp add: reply_def)
  moreover have "msg_type err = MSG_ERROR" "c_str (sender err) = Inr ''Server''"
      "c_str (content err) = Inr reply" "recipient err = replicate MAX_USERNAME NUL"
    using ec(2) es(2) by (simp_all add: err_def zero_message_def)
  ultimately show ?thesis
    unfolding reply_def by (intro exI [of _ err]) (simp add: close_socket_def send_frame_def)
qed

text \<open>C3. When the name received in the handshake is held by an active session at the
  duplicate check, the handler sends one frame on the new connection (kind error, from
  ``Server'', reading that the name is already in use), closes it and returns: as a thread
  it is gone. Nothing else of the state changes, so the registry and the session holding
  the name are as before.\<close>

theorem duplicate_username_rejected:
  assumes "registry_ok s" and "recv_username data = Some uname" and "c_str uname = Inr name"
    and "\<exists>c\<in>set (active s). c_str (username c) = Inr name"
  shows "\<exists>s' err. handle_client stack client_socket data evs s = Inr s'
     \<and> check_username client_socket uname s = Inr (False, s')
     \<and> (ph client_socket = Connected data \<longrightarrow>
          run_action stack (Step client_socket) (s, ph) = Inr (s', ph(client_socket := Closed)))
     \<and> s' = s\<lparr>sent := sent s @ [(client_socket, err)], closed := closed s @ [client_socket]\<rparr>
     \<and> msg_type err = MSG_ERROR \<and> c_str (sender err) = Inr ''Server''
     \<and> c_str (content err) =
           Inr (''Username '' @ [CHR 0x27] @ name @ [CHR 0x27] @ '' is already in use'')"
proof -
  obtain k where k: "lookup s name = Some k"
    using assms(4) lookup_Some_iff [of s name] by blast
  obtain err where err: "check_username client_socket uname s =
           Inr (False, s\<lparr>sent := sent s @ [(client_socket, err)],
                          closed := closed s @ [client_socket]\<rparr>)"
      "msg_type err = MSG_ERROR" "c_str (sender err) = Inr ''Server''"
      "c_str (content err) =
           Inr (''Username '' @ [CHR 0x27] @ name @ [CHR 0x27] @ '' is already in use'')"
    using check_username_duplicate [OF assms(1) recv_username_length [OF assms(2)] assms(3) k]
    by blast
  define s' where "s' = s\<lparr>sent := sent s @ [(client_socket, err)],
                            closed := closed s @ [client_socket]\<rparr>"
  have chk: "check_username client_socket uname s = Inr (False, s')"
    using err(1) by (simp only: s'_def)
  have hc: "handle_client stack client_socket data evs s = Inr s'"
    using chk assms(2) by (simp add: handle_client_def)
  have step: "ph client_socket = Connected data \<longrightarrow>
          run_action stack (Step client_socket) (s, ph) = Inr (s', ph(client_socket := Closed))"
    using chk assms(2) by (simp add: run_action_def)
  show ?thesis
    using hc chk step s'_def err(2-4) by blast
qed

theorem duplicate_username_rejected_witness:
  "registry_ok alice_bob \<and> recv_username (client_hello ''bob'') = Some (client_hello ''bob'')
   \<and> c_str (client_hello ''bob'') = Inr ''bob''
   \<and> (\<exists>c\<in>set (active alice_bob). c_str (username c) = Inr ''bob'')
   \<and> (\<exists>err. handle_client (zero_message MSG_LOGIN) 6 (client_hello ''bob'') [] alice_bob =
               Inr (alice_bob\<lparr>sent := [(6, err)], closed := [6]\<rparr>)
        \<and> msg_type err = MSG_ERROR \<and> c_str (sender err) = Inr ''Server''
        \<and> c_str (content err) =
              Inr (''Username '' @ [CHR 0x27] @ ''bob'' @ [CHR 0x27] @ '' is already in use''))"
proof -
  have r: "recv_username (client_hello ''bob'') = Some (client_hello ''bob'')" by code_simp
  have n: "c_str (client_hello ''bob'') = Inr ''bob''" by code_simp
  have h: "\<exists>c\<in>set (active alice_bob). c_str (username c) = Inr ''bob''" by code_simp
  have c: "closed alice_bob = []" by code_simp
  show ?thesis
    using duplicate_username_rejected [OF alice_bob_ok r n h, of "zero_message MSG_LOGIN" 6 "[]"]
      alice_bob_ok r n h
    by (simp add: alice_bob_sent c) blast
qed

subsection \<open>Registration\<close>

lemma check_username_fresh:
  "registry_ok s \<Longrightarrow> c_str uname = Inr name \<Longrightarrow> lookup s name = None \<Longrightarrow>
   check_username client_socket uname s = Inr (True, s)"
  by (simp add: check_username_def find_client_lookup)

lemma strncpy_field:
  assumes "length dst = MAX_USERNAME" and "length uname = MAX_USERNAME"
    and "c_str uname = Inr name"
  shows "strncpy dst uname MAX_USERNAME = Inr (name @ replicate (MAX_USERNAME - length name) NUL)"
proof -
  have n: "name = takeWhile (\<lambda>c. c \<noteq> NUL) uname"
    using assms(3) by (simp add: c_str_Inr_iff)
  have l: "length name < MAX_USERNAME"
    using c_str_length [OF assms(3)] assms(2) by simp
  have "take MAX_USERNAME uname = uname" using assms(2) by simp
  then show ?thesis
    using assms(1,2) l unfolding strncpy_def n [symmetric] Let_def
    by (simp add: n [symmetric])
qed

lemma padded_c_str:
  "NUL \<notin> set name \<Longrightarrow> length name < n \<Longrightarrow> c_str (name @ replicate (n - length name) NUL) = Inr name"
proof -
  assume a: "NUL \<notin> set name" "length name < n"
  then obtain k where "n - length name = Suc k" by (metis Suc_diff_Suc)
  with a show ?thesis by (simp add: c_str_text)
qed

lemma register_client_effect:
  assumes ok: "registry_ok s" and room: "client_count s < MAX_CLIENTS"
    and len: "length uname = MAX_USERNAME" and name: "c_str uname = Inr name"
  shows "register_client client_socket uname s =
           Inr (s\<lparr>clients := (clients s)[client_count s :=
                     \<lparr>socket = client_socket,
                      username = name @ replicate (MAX_USERNAME - length name) NUL\<rparr>],
                   client_count := client_count s + 1\<rparr>)"
proof -
  have lc: "length (clients s) = MAX_CLIENTS"
    using ok by (simp add: registry_ok_def)
  have "length (username (clients s ! client_count s)) = MAX_USERNAME"
    using ok room by (simp add: registry_ok_def list_all_length)
  then show ?thesis
    using room lc by (simp add: register_client_def strncpy_field [OF _ len name])
qed

lemma registered_ok:
  fixes client_socket :: int
  assumes ok: "registry_ok s" and room: "client_count s < MAX_CLIENTS"
    and nn: "NUL \<notin> set name" and ln: "length name < MAX_USERNAME"
  defines "new \<equiv> \<lparr>socket = client_socket,
                    username = name @ replicate (MAX_USERNAME - length name) NUL\<rparr>"
  defines "s1 \<equiv> s\<lparr>clients := (clients s)[client_count s := new],
                   client_count := client_count s + 1\<rparr>"
  shows "registry_ok s1" and "active s1 = active s @ [new]"
proof -
  have lc: "length (clients s) = MAX_CLIENTS"
    using ok by (simp add: registry_ok_def)
  show act: "active s1 = active s @ [new]"
    using room lc by (simp add: active_def s1_def take_Suc_conv_app_nth)
  have "terminated (username new)"
    using ln by (simp add: new_def terminated_def)
  moreover have "length (username new) = MAX_USERNAME"
    using ln by (simp add: new_def)
  moreover have "list_all (\<lambda>c. length (username c) = MAX_USERNAME) (clients s1)"
    using ok \<open>length (username new) = MAX_USERNAME\<close>
    by (auto simp: registry_ok_def s1_def list_all_iff dest!: set_update_subset_insert [THEN subsetD])
  ultimately show "registry_ok s1"
    using ok room lc unfolding registry_ok_def act
    by (simp add: s1_def)
qed

lemma announce_login_effect:
  assumes "client_count s \<le> length (clients s)"
    and "c_str uname = Inr name" and "length uname = MAX_USERNAME"
  shows "\<exists>s' login_msg. announce_login client_socket uname s = Inr s'
     \<and> msg_type login_msg = MSG_LOGIN \<and> c_str (sender login_msg) = Inr name
     \<and> c_str (content login_msg) = Inr ''has joined the chat''
     \<and> sent s' = sent s @ map (\<lambda>c. (socket c, login_msg))
                              (filter (\<lambda>c. socket c \<noteq> client_socket) (active s))
     \<and> clients s' = clients s \<and> client_count s' = client_count s \<and> closed s' = closed s"
proof -
  have ln: "length name < MAX_USERNAME"
    using c_str_length [OF assms(2)] assms(3) by simp
  have nn: "NUL \<notin> set name" by (rule c_str_no_NUL [OF assms(2)])
  define entry where "entry = name @ '' has joined the chat''"
  have len: "length entry \<le> 300" using ln by (simp add: entry_def)
  define s1 where "s1 = update_whiteboard (log_line MSG_TYPE_LOGIN entry) s"
  have s1: "format_whiteboard_msg MSG_TYPE_LOGIN entry s = s1"
    by (simp only: s1_def format_whiteboard_msg_line [OF len])
  obtain ls where ls: "strcpy (sender (zero_message MSG_LOGIN)) name = Inr ls" "c_str ls = Inr name"
    using strcpy_c_str [of name "sender (zero_message MSG_LOGIN)"] ln nn
    by (auto simp: zero_message_def)
  obtain lc where lc: "strcpy (content (zero_message MSG_LOGIN)) ''has joined the chat'' = Inr lc"
      "c_str lc = Inr ''has joined the chat''"
    using strcpy_c_str [of "''has joined the chat''" "content (zero_message MSG_LOGIN)"]
    by (auto simp: zero_message_def NUL_def)
  define login_msg where "login_msg = (zero_message MSG_LOGIN)\<lparr>sender := ls, content := lc\<rparr>"
  have run: "announce_login client_socket uname s = broadcast_message login_msg client_socket s1"
    unfolding announce_login_def assms(2) then_res_Inr Let_def
      entry_def [symmetric] s1 ls(1) lc(1) login_msg_def ..
  have "client_count s1 \<le> length (clients s1)"
    using assms(1) by (simp add: s1_def)
  moreover have "c_str (sender login_msg) = Inr name"
      "c_str (content login_msg) = Inr ''has joined the chat''"
    using ls(2) lc(2) by (simp_all add: login_msg_def)
  ultimately obtain s' where "broadcast_message login_msg client_socket s1 = Inr s'"
      "sent s' = sent s1 @ map (\<lambda>c. (socket c, login_msg))
                              (filter (\<lambda>c. socket c \<noteq> client_socket) (active s1))"
      "clients s' = clients s1" "client_count s' = client_count s1" "closed s' = closed s1"
    using broadcast_message_effect [of s1 login_msg name "''has joined the chat''" client_socket] ln
    by auto
  moreover have "msg_type login_msg = MSG_LOGIN"
    by (simp add: login_msg_def zero_message_def)
  ultimately show ?thesis
    using run \<open>c_str (sender login_msg) = Inr name\<close>
      \<open>c_str (content login_msg) = Inr ''has joined the chat''\<close>
    by (intro exI [of _ s'] exI [of _ login_msg]) (simp add: s1_def)
qed


lemma registry_cong:
  assumes "clients s' = clients s" and "client_count s' = client_count s"
  shows "active s' = active s" and "registry_ok s' = registry_ok s"
    and "names s' = names s" and "lookup s' = lookup s"
proof -
  show a: "active s' = active s" using assms by (simp add: active_def)
  show "registry_ok s' = registry_ok s" using assms a by (simp add: registry_ok_def)
  show "names s' = names s" using a by (simp add: names_def)
  show "lookup s' = lookup s" using a by (simp add: lookup_def fun_eq_iff)
qed

lemma lookup_None_iff: "lookup s name = None \<longleftrightarrow> Inr name \<notin> set (names s)"
proof -
  have "lookup s name = None \<longleftrightarrow> (\<forall>c\<in>set (active s). c_str (username c) \<noteq> Inr name)"
    by (simp add: lookup_def find_None_iff) blast
  moreover have "Inr name \<in> set (names s) \<longleftrightarrow>
                   (\<exists>c\<in>set (active s). Inr name = c_str (username c))"
    unfolding names_def set_map by (rule image_iff)
  ultimately show ?thesis by metis
qed

lemma admit_client_effect:
  assumes ok: "registry_ok s" and room: "client_count s < MAX_CLIENTS"
    and len: "length uname = MAX_USERNAME" and name: "c_str uname = Inr name"
  shows "\<exists>s'. admit_client client_socket uname s = Inr s'
     \<and> registry_ok s' \<and> client_count s' = client_count s + 1
     \<and> active s' = active s @
           [\<lparr>socket = client_socket,
             username = name @ replicate (MAX_USERNAME - length name) NUL\<rparr>]
     \<and> names s' = names s @ [Inr name]
     \<and> closed s' = closed s"
proof -
  define new where "new = \<lparr>socket = client_socket,
                    username = name @ replicate (MAX_USERNAME - length name) NUL\<rparr>"
  define s1 where "s1 = s\<lparr>clients := (clients s)[client_count s := new],
                   client_count := client_count s + 1\<rparr>"
  have ln: "length name < MAX_USERNAME"
    using c_str_length [OF name] len by simp
  have nn: "NUL \<notin> set name" by (rule c_str_no_NUL [OF name])
  have reg: "register_client client_socket uname s = Inr s1"
    unfolding s1_def new_def by (rule register_client_effect [OF ok room len name])
  have ok1: "registry_ok s1" and act1: "active s1 = active s @ [new]"
    unfolding s1_def new_def by (rule registered_ok [OF ok room nn ln])+
  have "client_count s1 \<le> length (clients s1)"
    using ok1 by (simp add: registry_ok_def)
  then obtain s' where s': "announce_login client_socket uname s1 = Inr s'"
      "clients s' = clients s1" "client_count s' = client_count s1" "closed s' = closed s1"
    using announce_login_effect [of s1 uname name client_socket] name len by blast
  have "admit_client client_socket uname s = Inr s'"
    using reg s'(1) by (simp add: admit_client_def)
  moreover have "registry_ok s'" "active s' = active s @ [new]"
    using registry_cong [OF s'(2,3)] ok1 act1 by simp_all
  moreover have "names s' = names s @ [Inr name]"
    using \<open>active s' = active s @ [new]\<close> nn ln
    by (simp add: names_def new_def padded_c_str)
  moreover have "client_count s' = client_count s + 1" "closed s' = closed s"
    using s'(3,4) by (simp_all add: s1_def)
  ultimately show ?thesis
    unfolding new_def by blast
qed

lemma handle_client_registers:
  assumes ok: "registry_ok s" and room: "client_count s < MAX_CLIENTS"
    and r: "recv_username data = Some uname" and name: "c_str uname = Inr name"
    and fresh: "lookup s name = None"
  shows "\<exists>s'. handle_client stack client_socket data [] s = Inr s'
     \<and> registry_ok s' \<and> client_count s' = client_count s + 1
     \<and> active s' = active s @
           [\<lparr>socket = client_socket,
             username = name @ replicate (MAX_USERNAME - length name) NUL\<rparr>]
     \<and> names s' = names s @ [Inr name]
     \<and> closed s' = closed s"
proof -
  have "handle_client stack client_socket data [] s = admit_client client_socket uname s"
    using r check_username_fresh [OF ok name fresh, of client_socket]
    by (simp add: handle_client_def then_res_def split: sum.split)
  then show ?thesis
    using admit_client_effect [OF ok room recv_username_length [OF r] name, of client_socket]
    by simp
qed

lemma client_hello_recv:
  assumes "NUL \<notin> set name" and "length name < MAX_USERNAME"
  shows "recv_username (client_hello name) = Some (client_hello name)"
    and "c_str (client_hello name) = Inr name"
proof -
  have tw: "takeWhile (\<lambda>c. c \<noteq> NUL) name = name"
    using assms(1) by (induction name) auto
  have hello: "client_hello name = name @ replicate (MAX_USERNAME - length name) NUL"
    using assms(2) by (simp add: client_hello_def tw)
  show "c_str (client_hello name) = Inr name"
    unfolding hello by (rule padded_c_str [OF assms])
  have "client_hello name \<noteq> []" "length (client_hello name) = MAX_USERNAME"
    using assms(2) by (simp_all add: hello)
  then show "recv_username (client_hello name) = Some (client_hello name)"
    by (simp add: recv_username_def)
qed

lemma sequential_connects:
  assumes "registry_ok s" and "client_count s + length cs \<le> MAX_CLIENTS"
    and "distinct (map snd cs)"
    and "\<forall>c\<in>set cs. NUL \<notin> set (snd c) \<and> length (snd c) < MAX_USERNAME \<and>
                     Inr (snd c) \<notin> set (names s)"
  shows "\<exists>s'. fold connect cs (Inr s) = Inr s' \<and> registry_ok s'
     \<and> client_count s' = client_count s + length cs
     \<and> names s' = names s @ map (\<lambda>c. Inr (snd c)) cs
     \<and> map socket (active s') = map socket (active s) @ map fst cs
     \<and> closed s' = closed s"
  using assms
proof (induction cs arbitrary: s)
  case Nil
  then show ?case by simp
next
  case (Cons c cs)
  have c: "NUL \<notin> set (snd c)" "length (snd c) < MAX_USERNAME" "lookup s (snd c) = None"
    using Cons.prems(4) by (simp_all add: lookup_None_iff)
  have room: "client_count s < MAX_CLIENTS"
    using Cons.prems(2) by simp
  obtain s1 where s1: "handle_client (zero_message MSG_LOGIN) (fst c) (client_hello (snd c)) [] s
                        = Inr s1"
      "registry_ok s1" "client_count s1 = client_count s + 1"
      "active s1 = active s @
         [\<lparr>socket = fst c,
           username = snd c @ replicate (MAX_USERNAME - length (snd c)) NUL\<rparr>]"
      "names s1 = names s @ [Inr (snd c)]" "closed s1 = closed s"
    using handle_client_registers [OF Cons.prems(1) room client_hello_recv [OF c(1,2)] c(3)]
    by blast
  have step: "fold connect (c # cs) (Inr s) = fold connect cs (Inr s1)"
    using s1(1) by (simp add: connect_def)
  have "client_count s1 + length cs \<le> MAX_CLIENTS" "distinct (map snd cs)"
    using Cons.prems(2,3) s1(3) by simp_all
  moreover have "\<forall>d\<in>set cs. NUL \<notin> set (snd d) \<and> length (snd d) < MAX_USERNAME \<and>
                     Inr (snd d) \<notin> set (names s1)"
  proof
    fix d assume d: "d \<in> set cs"
    then have "snd d \<noteq> snd c" using Cons.prems(3)
      by (metis distinct.simps(2) image_eqI list.simps(9) set_map)
    with d Cons.prems(4) s1(5) show "NUL \<notin> set (snd d) \<and> length (snd d) < MAX_USERNAME \<and>
                     Inr (snd d) \<notin> set (names s1)"
      by simp
  qed
  ultimately obtain s' where "fold connect cs (Inr s1) = Inr s'" "registry_ok s'"
      "client_count s' = client_count s1 + length cs"
      "names s' = names s1 @ map (\<lambda>c. Inr (snd c)) cs"
      "map socket (active s') = map socket (active s1) @ map fst cs"
      "closed s' = closed s1"
    using Cons.IH [OF s1(2)] by blast
  with step s1 show ?case by simp
qed


lemma started_registry:
  "registry_ok started" "client_count started = 0" "names started = []"
  "active started = []" "closed started = []" "sent started = []"
  by code_simp+

lemma registration_at_capacity:
  assumes ok: "registry_ok s" and full: "client_count s = MAX_CLIENTS"
    and r: "recv_username data = Some uname" and name: "c_str uname = Inr name"
    and fresh: "lookup s name = None"
  shows "check_username client_socket uname s = Inr (True, s)"
    and "register_client client_socket uname s = Inl Out_Of_Bounds"
    and "handle_client stack client_socket data evs s = Inl Out_Of_Bounds"
proof -
  show chk: "check_username client_socket uname s = Inr (True, s)"
    by (rule check_username_fresh [OF ok name fresh])
  have "length (clients s) = MAX_CLIENTS" using ok by (simp add: registry_ok_def)
  then show reg: "register_client client_socket uname s = Inl Out_Of_Bounds"
    using full by (simp add: register_client_def)
  show "handle_client stack client_socket data evs s = Inl Out_Of_Bounds"
    using r chk reg by (simp add: handle_client_def admit_client_def)
qed

text \<open>C1, at the input where the code leaves it. Ten users connect one after the other
  and stay: all ten are registered and the count is \<open>MAX_CLIENTS\<close>. An eleventh connects
  under a fresh name: its duplicate check passes with nothing sent and nothing closed,
  and the registration stores into \<^verbatim>\<open>clients[MAX_CLIENTS]\<close>, outside the array. No
  capacity error is produced anywhere.\<close>

theorem eleventh_client_overruns_registry:
  "\<exists>s. fold connect ten_users (Inr started) = Inr s
     \<and> client_count s = MAX_CLIENTS \<and> map socket (active s) = map fst ten_users
     \<and> closed s = []
     \<and> check_username 14 (client_hello ''k'') s = Inr (True, s)
     \<and> register_client 14 (client_hello ''k'') s = Inl Out_Of_Bounds
     \<and> connect (14, ''k'') (Inr s) = Inl Out_Of_Bounds"
proof -
  have d: "distinct (map snd ten_users)" by code_simp
  have v: "\<forall>c\<in>set ten_users. NUL \<notin> set (snd c) \<and> length (snd c) < MAX_USERNAME \<and>
                     Inr (snd c) \<notin> set (names started)"
    unfolding started_registry by code_simp
  have l: "client_count started + length ten_users \<le> MAX_CLIENTS"
    unfolding started_registry by code_simp
  obtain s where s: "fold connect ten_users (Inr started) = Inr s" "registry_ok s"
      "client_count s = client_count started + length ten_users"
      "names s = names started @ map (\<lambda>c. Inr (snd c)) ten_users"
      "map socket (active s) = map socket (active started) @ map fst ten_users"
      "closed s = closed started"
    using sequential_connects [OF started_registry(1) l d v] by blast
  have full: "client_count s = MAX_CLIENTS"
    using s(3) by (simp add: started_registry ten_users_def)
  have "Inr ''k'' \<notin> set (names s)"
    unfolding s(4) started_registry by (simp add: ten_users_def)
  then have fresh: "lookup s ''k'' = None" by (simp add: lookup_None_iff)
  have k: "NUL \<notin> set ''k''" "length ''k'' < MAX_USERNAME" by (simp_all add: NUL_def)
  note cap = registration_at_capacity [OF s(2) full client_hello_recv [OF k] fresh]
  have "connect (14, ''k'') (Inr s) = Inl Out_Of_Bounds"
    by (simp add: connect_def cap(3))
  with s(1,5,6) full cap(1,2) show ?thesis
    by (intro exI [of _ s]) (simp add: started_registry)
qed


lemma alice_hello:
  "recv_username (client_hello ''alice'') = Some (client_hello ''alice'')"
  "c_str (client_hello ''alice'') = Inr ''alice''"
  "length (client_hello ''alice'') = MAX_USERNAME"
  by code_simp+

lemma run_Cons: "run stack (a # as) sys = then_res (run_action stack a sys) (run stack as)"
  by simp

text \<open>C2, at the schedule where the code leaves it. Two handlers hold the same name.
  When both run their duplicate check before either runs its insertion, both checks
  pass and both insertions happen: the registry ends with two active sessions named
  alice. When the first handler finishes its insertion before the second one checks,
  the second is refused: the check works, but it is not one step with the insertion.\<close>

theorem same_name_race:
  "(\<exists>s ph. run (zero_message MSG_LOGIN) [Step 4, Step 5, Step 4, Step 5] (started, two_alices)
              = Inr (s, ph)
      \<and> names s = [Inr ''alice'', Inr ''alice''] \<and> map socket (active s) = [4, 5]
      \<and> closed s = []
      \<and> ph 4 = Registered (client_hello ''alice'') \<and> ph 5 = Registered (client_hello ''alice''))
   \<and> (\<exists>s ph. run (zero_message MSG_LOGIN) [Step 4, Step 4, Step 5, Step 5] (started, two_alices)
              = Inr (s, ph)
      \<and> names s = [Inr ''alice''] \<and> map socket (active s) = [4] \<and> closed s = [5]
      \<and> ph 4 = Registered (client_hello ''alice'') \<and> ph 5 = Closed)"
proof -
  let ?hello = "client_hello ''alice''"
  let ?z = "zero_message MSG_LOGIN"
  have fresh0: "lookup started ''alice'' = None"
    by (simp add: lookup_None_iff started_registry)
  have chk0: "check_username c ?hello started = Inr (True, started)" for c
    by (rule check_username_fresh [OF started_registry(1) alice_hello(2) fresh0])
  have room0: "client_count started < MAX_CLIENTS" by (simp add: started_registry)
  obtain s1 where s1: "admit_client 4 ?hello started = Inr s1" "registry_ok s1"
      "client_count s1 = client_count started + 1"
      "active s1 = active started @
         [\<lparr>socket = 4, username = ''alice'' @ replicate (MAX_USERNAME - length ''alice'') NUL\<rparr>]"
      "names s1 = names started @ [Inr ''alice'']" "closed s1 = closed started"
    using admit_client_effect [OF started_registry(1) room0 alice_hello(3) alice_hello(2), of 4]
    by blast
  have room1: "client_count s1 < MAX_CLIENTS" using s1(3) by (simp add: started_registry)
  obtain s2 where s2: "admit_client 5 ?hello s1 = Inr s2"
      "active s2 = active s1 @
         [\<lparr>socket = 5, username = ''alice'' @ replicate (MAX_USERNAME - length ''alice'') NUL\<rparr>]"
      "names s2 = names s1 @ [Inr ''alice'']" "closed s2 = closed s1"
    using admit_client_effect [OF s1(2) room1 alice_hello(3) alice_hello(2), of 5]
    by blast
  have p0: "two_alices 4 = Connected ?hello" "two_alices 5 = Connected ?hello"
    by (simp_all add: two_alices_def)
  define ph1 where "ph1 = two_alices(4 := Admitted ?hello)"
  define ph2 where "ph2 = ph1(5 := Admitted ?hello)"
  define ph3 where "ph3 = ph2(4 := Registered ?hello)"
  define ph4 where "ph4 = ph3(5 := Registered ?hello)"
  have r1: "run_action ?z (Step 4) (started, two_alices) = Inr (started, ph1)"
    using alice_hello(1) chk0 [of 4] by (simp add: run_action_def p0 ph1_def)
  have r2: "run_action ?z (Step 5) (started, ph1) = Inr (started, ph2)"
    using alice_hello(1) chk0 [of 5] by (simp add: run_action_def p0 ph1_def ph2_def)
  have r3: "run_action ?z (Step 4) (started, ph2) = Inr (s1, ph3)"
    using s1(1) by (simp add: run_action_def ph1_def ph2_def ph3_def)
  have r4: "run_action ?z (Step 5) (s1, ph3) = Inr (s2, ph4)"
    using s2(1) by (simp add: run_action_def ph2_def ph3_def ph4_def)
  have race: "run ?z [Step 4, Step 5, Step 4, Step 5] (started, two_alices) = Inr (s2, ph4)"
    by (simp only: run_Cons run.simps(1) r1 r2 r3 r4 then_res_Inr)
  have raced: "names s2 = [Inr ''alice'', Inr ''alice'']" "map socket (active s2) = [4, 5]"
      "closed s2 = []" "ph4 4 = Registered ?hello" "ph4 5 = Registered ?hello"
    using s1 s2 by (simp_all add: started_registry ph4_def ph3_def)
  define qh2 where "qh2 = ph1(4 := Registered ?hello)"
  have q2: "run_action ?z (Step 4) (started, ph1) = Inr (s1, qh2)"
    using s1(1) by (simp add: run_action_def ph1_def qh2_def)
  have held: "\<exists>k. lookup s1 ''alice'' = Some k"
    using s1(5) lookup_None_iff [of s1 "''alice''"] by (simp add: started_registry)
  then obtain k where k: "lookup s1 ''alice'' = Some k" ..
  obtain err where err: "check_username 5 ?hello s1 =
      Inr (False, s1\<lparr>sent := sent s1 @ [(5, err)], closed := closed s1 @ [5]\<rparr>)"
    using check_username_duplicate [OF s1(2) alice_hello(3) alice_hello(2) k, of 5] by blast
  define s3 where "s3 = s1\<lparr>sent := sent s1 @ [(5, err)], closed := closed s1 @ [5]\<rparr>"
  define qh3 where "qh3 = qh2(5 := Closed)"
  have q3: "run_action ?z (Step 5) (s1, qh2) = Inr (s3, qh3)"
    using alice_hello(1) err by (simp add: run_action_def qh2_def ph1_def p0 qh3_def s3_def)
  have q4: "run_action ?z (Step 5) (s3, qh3) = Inr (s3, qh3)"
    by (simp add: run_action_def qh3_def)
  have seq: "run ?z [Step 4, Step 4, Step 5, Step 5] (started, two_alices) = Inr (s3, qh3)"
    by (simp only: run_Cons run.simps(1) r1 q2 q3 q4 then_res_Inr)
  have "clients s3 = clients s1" "client_count s3 = client_count s1"
    by (simp_all add: s3_def)
  then have "active s3 = active s1" "names s3 = names s1"
    by (rule registry_cong)+
  then have seqd: "names s3 = [Inr ''alice'']" "map socket (active s3) = [4]" "closed s3 = [5]"
      "qh3 4 = Registered ?hello" "qh3 5 = Closed"
    using s1 by (simp_all add: started_registry s3_def qh3_def qh2_def)
  have "\<exists>s ph. run ?z [Step 4, Step 5, Step 4, Step 5] (started, two_alices) = Inr (s, ph)
      \<and> names s = [Inr ''alice'', Inr ''alice''] \<and> map socket (active s) = [4, 5]
      \<and> closed s = []
      \<and> ph 4 = Registered ?hello \<and> ph 5 = Registered ?hello"
    by (rule exI [of _ s2], rule exI [of _ ph4]) (intro conjI race raced)
  moreover have "\<exists>s ph. run ?z [Step 4, Step 4, Step 5, Step 5] (started, two_alices) = Inr (s, ph)
      \<and> names s = [Inr ''alice''] \<and> map socket (active s) = [4] \<and> closed s = [5]
      \<and> ph 4 = Registered ?hello \<and> ph 5 = Closed"
    by (rule exI [of _ s3], rule exI [of _ qh3]) (intro conjI seq seqd)
  ultimately show ?thesis by (rule conjI)
qed


text \<open>C8, at the input where the code leaves it. A handshake of \<open>MAX_USERNAME\<close> bytes
  none of which is zero fills the local array completely; on an empty registry the
  duplicate check compares nothing and passes; \<^verbatim>\<open>strncpy\<close> with \<open>MAX_USERNAME\<close>
  copies all the bytes and adds no terminator, so the registry entry holds a name with no
  NUL in its field, and the next read of the name as a string (the login line) runs
  past the array. A message frame is kept as received as well: one whose recipient field
  has no NUL is read past that field by the lookup.\<close>

theorem unterminated_username_stored:
  "recv_username (replicate MAX_USERNAME (CHR ''A'')) = Some (replicate MAX_USERNAME (CHR ''A''))
   \<and> check_username 4 (replicate MAX_USERNAME (CHR ''A'')) started = Inr (True, started)
   \<and> (case register_client 4 (replicate MAX_USERNAME (CHR ''A'')) started of
         Inl e \<Rightarrow> False
       | Inr s \<Rightarrow> client_count s = 1
           \<and> username (clients s ! 0) = replicate MAX_USERNAME (CHR ''A'')
           \<and> \<not> terminated (username (clients s ! 0))
           \<and> c_str (username (clients s ! 0)) = Inl Unterminated_String)
   \<and> handle_client (zero_message MSG_LOGIN) 4 (replicate MAX_USERNAME (CHR ''A'')) [] started
       = Inl Unterminated_String
   \<and> loop_iteration (zero_message MSG_LOGIN) 4 (client_hello ''alice'')
         (Frame ((client_frame ''alice'' ''bob'' ''hi'')
                   \<lparr>recipient := replicate MAX_USERNAME (CHR ''B'')\<rparr>)) alice_bob
       = Inl Unterminated_String"
  by code_simp

subsection \<open>States reached without fault\<close>

text \<open>Every section of the handler that returns without fault keeps the registry and
  the whiteboard well formed: the count stays within the array, the active names stay
  terminated. The disconnect branch removes the first entry carrying the handler's socket
  and keeps the others in order. This holds for a handler run alone and for any
  interleaving of handlers.\<close>

lemma then_res_eq_Inr: "then_res m f = Inr y \<longleftrightarrow> (\<exists>x. m = Inr x \<and> f x = Inr y)"
  by (cases m) simp_all

lemma format_whiteboard_msg_frame [simp]:
  "clients (format_whiteboard_msg t x s) = clients s"
  "client_count (format_whiteboard_msg t x s) = client_count s"
  "sent (format_whiteboard_msg t x s) = sent s"
  "closed (format_whiteboard_msg t x s) = closed s"
  by (simp_all add: format_whiteboard_msg_def Let_def split: prod.split)

lemma format_whiteboard_msg_wb_ok:
  "wb_ok (whiteboard s) \<Longrightarrow> wb_ok (whiteboard (format_whiteboard_msg t x s))"
  by (simp add: format_whiteboard_msg_def Let_def wb_ok_update split: prod.split)

lemma same_registry_refl [simp]: "same_registry s s"
  by (simp add: same_registry_def)

lemma same_registry_trans:
  "same_registry s s1 \<Longrightarrow> same_registry s1 s2 \<Longrightarrow> same_registry s s2"
  by (simp add: same_registry_def)

lemma same_registry_ok: "same_registry s s' \<Longrightarrow> registry_ok s \<Longrightarrow> registry_ok s'"
  by (simp add: same_registry_def registry_ok_def active_def)

lemma broadcast_message_same:
  assumes "client_count s \<le> length (clients s)" and "broadcast_message msg ex s = Inr s'"
  shows "same_registry s s'"
  using assms(2) unfolding broadcast_message_def broadcast_loop_sent [OF assms(1)]
  by (auto simp: then_res_eq_Inr same_registry_def whiteboard_update
      format_whiteboard_msg_def Let_def wb_ok_def split: prod.splits)

lemma send_private_message_same:
  assumes "send_private_message stack msg s = Inr s'"
  shows "same_registry s s'"
  using assms unfolding send_private_message_def
  by (auto simp: then_res_eq_Inr same_registry_def Let_def format_whiteboard_msg_wb_ok
      split: option.splits)

lemma check_username_same:
  assumes "check_username c uname s = Inr (b, s')"
  shows "same_registry s s'"
  using assms unfolding check_username_def
  by (auto simp: then_res_eq_Inr same_registry_def Let_def close_socket_def send_frame_def
      split: option.splits)


lemma announce_login_same:
  assumes "client_count s \<le> length (clients s)" and "announce_login c uname s = Inr s'"
  shows "same_registry s s'"
proof -
  obtain name ls lc where
    run: "broadcast_message ((zero_message MSG_LOGIN)\<lparr>sender := ls, content := lc\<rparr>) c
            (format_whiteboard_msg MSG_TYPE_LOGIN (name @ '' has joined the chat'') s) = Inr s'"
    using assms(2) unfolding announce_login_def by (auto simp: then_res_eq_Inr Let_def)
  let ?s1 = "format_whiteboard_msg MSG_TYPE_LOGIN (name @ '' has joined the chat'') s"
  have "same_registry s ?s1"
    by (simp add: same_registry_def format_whiteboard_msg_wb_ok)
  moreover have "same_registry ?s1 s'"
    using assms(1) by (intro broadcast_message_same [OF _ run]) simp
  ultimately show ?thesis by (rule same_registry_trans)
qed

lemma admit_client_ok:
  assumes ok: "registry_ok s" and len: "length uname = MAX_USERNAME"
    and run: "admit_client c uname s = Inr s'"
  shows "registry_ok s'" and "wb_ok (whiteboard s) \<Longrightarrow> wb_ok (whiteboard s')"
proof -
  obtain s1 where s1: "register_client c uname s = Inr s1" "announce_login c uname s1 = Inr s'"
    using run by (auto simp: admit_client_def then_res_eq_Inr)
  have room: "client_count s < MAX_CLIENTS"
    using s1(1) ok by (auto simp: register_client_def registry_ok_def split: if_splits)
  obtain name where name: "c_str uname = Inr name"
    using s1(2) by (auto simp: announce_login_def then_res_eq_Inr)
  show "registry_ok s'"
    using admit_client_effect [OF ok room len name, of c] run by auto
  have w: "whiteboard s1 = whiteboard s" "client_count s1 \<le> length (clients s1)"
    using s1(1) ok
    by (auto simp: register_client_def then_res_eq_Inr registry_ok_def split: if_splits)
  assume "wb_ok (whiteboard s)"
  then show "wb_ok (whiteboard s')"
    using announce_login_same [OF w(2) s1(2)] w(1) by (simp add: same_registry_def)
qed

lemma find_socket_loop_Some:
  "find_socket_loop s c i = Inr (Some k) \<Longrightarrow>
   i \<le> k \<and> k < client_count s \<and> k < length (clients s) \<and> socket (clients s ! k) = c \<and>
   (\<forall>j. i \<le> j \<and> j < k \<longrightarrow> socket (clients s ! j) \<noteq> c)"
proof (induction s c i rule: find_socket_loop.induct)
  case (1 s c i)
  show ?case
  proof (cases "i < client_count s \<and> i < length (clients s)")
    case True
    show ?thesis
    proof (cases "socket (clients s ! i) = c")
      case same: True
      with True 1(2) show ?thesis
        by (subst (asm) find_socket_loop.simps) simp
    next
      case False
      with True 1(2) have "find_socket_loop s c (i + 1) = Inr (Some k)"
        by (subst (asm) find_socket_loop.simps) simp
      with 1(1) True False have *: "i + 1 \<le> k" "k < client_count s" "k < length (clients s)"
          "socket (clients s ! k) = c"
          "\<forall>j. i + 1 \<le> j \<and> j < k \<longrightarrow> socket (clients s ! j) \<noteq> c"
        by simp_all
      have "socket (clients s ! j) \<noteq> c" if "i \<le> j" "j < k" for j
      proof (cases "j = i")
        case True
        with False show ?thesis by simp
      next
        case neq: False
        with that *(5) show ?thesis by simp
      qed
      with * show ?thesis by simp
    qed
  next
    case False
    with 1(2) show ?thesis
      by (subst (asm) find_socket_loop.simps) (auto split: if_splits)
  qed
qed

lemma find_socket_loop_None:
  "find_socket_loop s c i = Inr None \<Longrightarrow>
   \<forall>j. i \<le> j \<and> j < client_count s \<longrightarrow> socket (clients s ! j) \<noteq> c"
proof (induction s c i rule: find_socket_loop.induct)
  case (1 s c i)
  show ?case
  proof (cases "i < client_count s \<and> i < length (clients s)")
    case True
    with 1(2) have ne: "socket (clients s ! i) \<noteq> c"
      by (subst (asm) find_socket_loop.simps) (auto split: if_splits)
    with True 1(2) have "find_socket_loop s c (i + 1) = Inr None"
      by (subst (asm) find_socket_loop.simps) simp
    with 1(1) True ne have *: "\<forall>j. i + 1 \<le> j \<and> j < client_count s \<longrightarrow> socket (clients s ! j) \<noteq> c"
      by simp
    show ?thesis
    proof (intro allI impI)
      fix j assume j: "i \<le> j \<and> j < client_count s"
      show "socket (clients s ! j) \<noteq> c"
      proof (cases "j = i")
        case True
        with ne show ?thesis by simp
      next
        case False
        with j * show ?thesis by simp
      qed
    qed
  next
    case False
    with 1(2) show ?thesis
      by (subst (asm) find_socket_loop.simps) (auto split: if_splits)
  qed
qed

lemma shift_loop_result:
  assumes "n \<le> length cs" and "j < n"
  shows "shift_loop cs n j = Inr (take j cs @ drop (j + 1) (take n cs) @ drop (n - 1) cs)"
  using assms
proof (induction cs n j rule: shift_loop.induct)
  case (1 cs n j)
  show ?case
  proof (cases "j < n - 1")
    case True
    let ?cs = "cs[j := cs ! (j + 1)]"
    have j1: "j + 1 < length cs" "j + 1 < n" using True 1(2) by simp_all
    have "shift_loop cs n j = shift_loop ?cs n (j + 1)"
      using True j1 by (subst shift_loop.simps) simp
    also have "\<dots> = Inr (take (j + 1) ?cs @ drop (j + 1 + 1) (take n ?cs) @ drop (n - 1) ?cs)"
      using 1(1) [OF True j1(1)] 1(2) j1(2) by simp
    also have "take (j + 1) ?cs = take j cs @ [cs ! (j + 1)]"
      using j1 by (simp add: take_Suc_conv_app_nth)
    also have "drop (j + 1 + 1) (take n ?cs) = drop (j + 1 + 1) (take n cs)"
      by (simp add: drop_take)
    also have "drop (n - 1) ?cs = drop (n - 1) cs"
      using True by simp
    also have "(take j cs @ [cs ! (j + 1)]) @ drop (j + 1 + 1) (take n cs) @ drop (n - 1) cs =
               take j cs @ drop (j + 1) (take n cs) @ drop (n - 1) cs"
      using j1 1(2) by (simp add: Cons_nth_drop_Suc [symmetric, of "Suc j" "take n cs"])
    finally show ?thesis .
  next
    case False
    with 1(3) have jn: "j = n - 1" by simp
    have "drop n (take n cs) = []" by simp
    then have "drop (j + 1) (take n cs) = []" using jn 1(3) by simp
    with False jn show ?thesis
      by (subst shift_loop.simps) simp
  qed
qed


lemma remove_client_effect:
  assumes ok: "registry_ok s" and run: "remove_client c uname s = Inr (u', s1)"
  shows "registry_ok s1 \<and> whiteboard s1 = whiteboard s \<and> sent s1 = sent s \<and> closed s1 = closed s
     \<and> ((s1 = s \<and> c \<notin> socket ` set (active s)) \<or>
        (\<exists>k<client_count s. socket (active s ! k) = c
           \<and> (\<forall>j<k. socket (active s ! j) \<noteq> c)
           \<and> active s1 = take k (active s) @ drop (Suc k) (active s)
           \<and> client_count s1 = client_count s - 1))"
proof -
  let ?n = "client_count s"
  let ?cs = "clients s"
  have n: "?n \<le> length ?cs" and L: "length ?cs = MAX_CLIENTS"
    using ok by (simp_all add: registry_ok_def)
  obtain found where found: "find_socket_loop s c 0 = Inr found"
    using run by (auto simp: remove_client_def then_res_eq_Inr)
  show ?thesis
  proof (cases found)
    case None
    with run found have same: "s1 = s" by (simp add: remove_client_def)
    have "\<forall>j<?n. socket (?cs ! j) \<noteq> c"
      using find_socket_loop_None [of s c 0] found None by simp
    have "c \<notin> socket ` set (active s)"
    proof
      assume "c \<in> socket ` set (active s)"
      then obtain x where x: "x \<in> set (active s)" "socket x = c" by auto
      then obtain j where "j < length (active s)" "active s ! j = x"
        by (auto simp: in_set_conv_nth)
      then have "j < ?n" "socket (?cs ! j) = c"
        using x(2) n by (simp_all add: active_def)
      with \<open>\<forall>j<?n. socket (?cs ! j) \<noteq> c\<close> show False by blast
    qed
    with same ok show ?thesis by simp
  next
    case (Some k)
    have k: "k < ?n" "socket (?cs ! k) = c" "\<forall>j<k. socket (?cs ! j) \<noteq> c"
      using find_socket_loop_Some [of s c 0 k] found Some by simp_all
    define cs' where "cs' = take k ?cs @ drop (k + 1) (take ?n ?cs) @ drop (?n - 1) ?cs"
    have sh: "shift_loop ?cs ?n k = Inr cs'"
      unfolding cs'_def by (rule shift_loop_result [OF n k(1)])
    have s1: "s1 = s\<lparr>clients := cs', client_count := ?n - 1\<rparr>"
      using run found Some sh by (auto simp: remove_client_def then_res_eq_Inr)
    have len: "length cs' = length ?cs"
      using k(1) n by (simp add: cs'_def)
    let ?kept = "take k ?cs @ drop (k + 1) (take ?n ?cs)"
    have "length ?kept = ?n - 1"
      using k(1) n by simp
    then have "take (?n - 1) (?kept @ drop (?n - 1) ?cs) = ?kept"
      by (metis append_eq_conv_conj)
    moreover have "take k ?cs = take k (take ?n ?cs)"
      using k(1) by (simp add: min_def)
    ultimately have act: "active s1 = take k (active s) @ drop (Suc k) (active s)"
      by (simp add: s1 active_def cs'_def)
    have sub: "set cs' \<subseteq> set ?cs"
      unfolding cs'_def by (auto dest: in_set_takeD in_set_dropD)
    have sub2: "set (active s1) \<subseteq> set (active s)"
      unfolding act by (auto dest: in_set_takeD in_set_dropD)
    have "registry_ok s1"
      using ok len sub sub2 k(1)
      by (auto simp: registry_ok_def list_all_iff s1)
    moreover have "socket (active s ! k) = c" "\<forall>j<k. socket (active s ! j) \<noteq> c"
      using k by (simp_all add: active_def)
    ultimately show ?thesis
      using act k(1) by (auto simp: s1)
  qed
qed

lemma disconnect_ok:
  assumes ok: "registry_ok s" and run: "disconnect c uname s = Inr s'"
  shows "registry_ok s'" and "wb_ok (whiteboard s) \<Longrightarrow> wb_ok (whiteboard s')"
proof -
  obtain u' s1 name ls lc s3 where
    rm: "remove_client c uname s = Inr (u', s1)" and
    bc: "broadcast_message ((zero_message MSG_LOGOUT)\<lparr>sender := ls, content := lc\<rparr>) c
           (format_whiteboard_msg MSG_TYPE_LOGOUT (name @ '' has left the chat'') s1) = Inr s3" and
    s': "s' = close_socket c s3"
    using run unfolding disconnect_def
    by (auto simp: then_res_eq_Inr Let_def split: prod.splits)
  let ?s2 = "format_whiteboard_msg MSG_TYPE_LOGOUT (name @ '' has left the chat'') s1"
  have ok1: "registry_ok s1" and w1: "whiteboard s1 = whiteboard s"
    using remove_client_effect [OF ok rm] by simp_all
  have "same_registry s1 ?s2"
    by (simp add: same_registry_def format_whiteboard_msg_wb_ok)
  moreover have "same_registry ?s2 s3"
    using ok1 by (intro broadcast_message_same [OF _ bc]) (simp add: registry_ok_def)
  moreover have "same_registry s3 s'"
    by (simp add: s' same_registry_def close_socket_def)
  ultimately have same: "same_registry s1 s'"
    by (blast intro: same_registry_trans)
  show "registry_ok s'" using same ok1 by (rule same_registry_ok)
  assume "wb_ok (whiteboard s)"
  then show "wb_ok (whiteboard s')" using same w1 by (simp add: same_registry_def)
qed


lemma loop_iteration_ok:
  assumes "registry_ok s" and "wb_ok (whiteboard s)"
    and "loop_iteration stack c uname ev s = Inr (again, s')"
  shows "registry_ok s' \<and> wb_ok (whiteboard s')"
proof (cases ev)
  case (Frame msg)
  show ?thesis
  proof (cases "msg_type msg = MSG_PRIVATE")
    case True
    with Frame assms(3) have "send_private_message stack msg s = Inr s'"
      by (auto simp: loop_iteration_def then_res_eq_Inr)
    then have "same_registry s s'" by (rule send_private_message_same)
    with assms(1,2) show ?thesis
      by (simp add: same_registry_ok) (simp add: same_registry_def)
  next
    case False
    with Frame assms show ?thesis by (simp add: loop_iteration_def)
  qed
next
  case Hangup
  with assms(3) have "disconnect c uname s = Inr s'"
    by (auto simp: loop_iteration_def then_res_eq_Inr)
  with assms(1,2) show ?thesis
    using disconnect_ok by blast
qed

lemma run_action_ok:
  assumes ok: "registry_ok s" and wb: "wb_ok (whiteboard s)"
    and ph: "\<forall>c u. ph c = Admitted u \<longrightarrow> length u = MAX_USERNAME"
    and run: "run_action stack a (s, ph) = Inr (s', ph')"
  shows "registry_ok s' \<and> wb_ok (whiteboard s') \<and>
         (\<forall>c u. ph' c = Admitted u \<longrightarrow> length u = MAX_USERNAME)"
proof (cases a)
  case (Step c)
  show ?thesis
  proof (cases "ph c")
    case (Connected data)
    show ?thesis
    proof (cases "recv_username data")
      case None
      with Step Connected run have "s' = close_socket c s" "ph' = ph(c := Closed)"
        by (simp_all add: run_action_def)
      with ok wb ph show ?thesis
        by (simp add: close_socket_def registry_ok_def active_def)
    next
      case (Some uname)
      with Step Connected run obtain go_on where
        chk: "check_username c uname s = Inr (go_on, s')" and
        ph': "ph' = ph(c := (if go_on then Admitted uname else Closed))"
        by (auto simp: run_action_def then_res_eq_Inr)
      have "same_registry s s'" using chk by (rule check_username_same)
      with ok wb have "registry_ok s'" "wb_ok (whiteboard s')"
        by (simp_all add: same_registry_ok) (simp add: same_registry_def)
      with ph ph' recv_username_length [OF Some] show ?thesis by simp
    qed
  next
    case (Admitted uname)
    with Step run obtain "admit_client c uname s = Inr s'" "ph' = ph(c := Registered uname)"
      by (auto simp: run_action_def then_res_eq_Inr)
    moreover have "length uname = MAX_USERNAME" using ph Admitted by simp
    ultimately show ?thesis
      using admit_client_ok [OF ok, of uname c s'] wb ph by simp
  next
    case (Registered uname)
    with Step run ok wb ph show ?thesis by (simp add: run_action_def)
  next
    case Closed
    with Step run ok wb ph show ?thesis by (simp add: run_action_def)
  qed
next
  case (Input c ev)
  show ?thesis
  proof (cases "ph c")
    case (Registered uname)
    with Input run obtain again where
      it: "loop_iteration stack c uname ev s = Inr (again, s')" and
      ph': "ph' = ph(c := (if again then Registered uname else Closed))"
      by (auto simp: run_action_def then_res_eq_Inr)
    from loop_iteration_ok [OF ok wb it] ph ph' show ?thesis by simp
  qed (use Input run ok wb ph in \<open>simp_all add: run_action_def\<close>)
qed

lemma run_ok:
  assumes "registry_ok s" and "wb_ok (whiteboard s)"
    and "\<forall>c u. ph c = Admitted u \<longrightarrow> length u = MAX_USERNAME"
    and "run stack as (s, ph) = Inr (s', ph')"
  shows "registry_ok s' \<and> wb_ok (whiteboard s')"
  using assms
proof (induction as arbitrary: s ph)
  case Nil
  then show ?case by simp
next
  case (Cons a as)
  from Cons.prems(4) obtain s1 ph1 where
    a: "run_action stack a (s, ph) = Inr (s1, ph1)" and
    r: "run stack as (s1, ph1) = Inr (s', ph')"
    by (auto simp: then_res_eq_Inr)
  from run_action_ok [OF Cons.prems(1-3) a] Cons.IH [OF _ _ _ r] show ?case by blast
qed

lemma started_wb_ok: "wb_ok (whiteboard started)"
  by (simp add: started_def wb_ok_update server0_ok)


lemma message_loop_ok:
  assumes "registry_ok s" and "wb_ok (whiteboard s)"
    and "message_loop stack c uname evs s = Inr s'"
  shows "registry_ok s' \<and> wb_ok (whiteboard s')"
  using assms
proof (induction evs arbitrary: s)
  case Nil
  then show ?case by simp
next
  case (Cons ev evs)
  from Cons.prems(3) obtain again s1 where
    it: "loop_iteration stack c uname ev s = Inr (again, s1)" and
    rest: "(if again then message_loop stack c uname evs s1 else Inr s1) = Inr s'"
    by (auto simp: then_res_eq_Inr)
  have ok1: "registry_ok s1" "wb_ok (whiteboard s1)"
    using loop_iteration_ok [OF Cons.prems(1,2) it] by simp_all
  show ?case
  proof (cases again)
    case True
    with rest Cons.IH [OF ok1] show ?thesis by simp
  next
    case False
    with rest ok1 show ?thesis by simp
  qed
qed

lemma handle_client_ok:
  assumes ok: "registry_ok s" and wb: "wb_ok (whiteboard s)"
    and run: "handle_client stack c data evs s = Inr s'"
  shows "registry_ok s' \<and> wb_ok (whiteboard s')"
proof (cases "recv_username data")
  case None
  with run have "s' = close_socket c s" by (simp add: handle_client_def)
  with ok wb show ?thesis by (simp add: close_socket_def registry_ok_def active_def)
next
  case (Some uname)
  with run obtain go_on s1 where
    chk: "check_username c uname s = Inr (go_on, s1)" and
    rest: "(if go_on then then_res (admit_client c uname s1) (message_loop stack c uname evs)
            else Inr s1) = Inr s'"
    by (auto simp: handle_client_def then_res_eq_Inr)
  have "same_registry s s1" using chk by (rule check_username_same)
  with ok wb have ok1: "registry_ok s1" "wb_ok (whiteboard s1)"
    by (simp_all add: same_registry_ok) (simp add: same_registry_def)
  show ?thesis
  proof (cases go_on)
    case True
    with rest obtain s2 where adm: "admit_client c uname s1 = Inr s2"
        and loop: "message_loop stack c uname evs s2 = Inr s'"
      by (auto simp: then_res_eq_Inr)
    have "registry_ok s2" "wb_ok (whiteboard s2)"
      using admit_client_ok [OF ok1(1) recv_username_length [OF Some] adm] ok1(2) by simp_all
    then show ?thesis using loop by (rule message_loop_ok)
  next
    case False
    with rest ok1 show ?thesis by simp
  qed
qed

end
